theory Spec2Isabelle
  imports Complex_Main "HOL-Library.Word"
begin

unbundle bit_operations_syntax

section \<open>Python values\<close>

text \<open>
  Python integers are unbounded and are modelled as \<open>int\<close>: \<open>AND\<close>, \<open>OR\<close>, \<open>XOR\<close> act on the
  two's complement representation, \<open>push_bit n x\<close> is \<open>x << n\<close> and \<open>drop_bit n x\<close> is the
  arithmetic \<open>x >> n\<close>, as in Python.  A Python string is the list of its code points
  (\<open>ord c\<close> for each character).  \<open>bool\<close> is a subclass of \<open>int\<close> in Python, so \<open>True\<close> and
  \<open>False\<close> are \<open>PyInt 1\<close> and \<open>PyInt 0\<close>.  Every other object that is not \<open>None\<close> is
  represented by its identity \<open>id(obj)\<close> and compares equal to itself only: these are the
  objects whose \<open>==\<close> is the default one of \<open>object\<close>, the comparison by identity.  An object
  with an \<open>__eq__\<close> of its own (a float, whose \<open>nan\<close> is not equal to itself, a tuple, an
  instance of a class that defines \<open>__eq__\<close>) is not a value of \<open>pyobj\<close>, and nothing is
  stated here about a table that holds such a key.  A Python value that may be \<open>None\<close> is a
  \<open>pyobj option\<close>, with \<open>None\<close> for \<open>None\<close>.
\<close>

type_synonym pystr = "nat list"

datatype pyobj = PyStr pystr | PyInt int | PyObj nat

datatype error = AssertionError | TypeError | ZeroDivisionError | IndexError

section \<open>siphash.py\<close>

definition split_lower_upper_words :: "int \<Rightarrow> int \<times> int" where
  "split_lower_upper_words big_int =
     (let lower = big_int AND (push_bit 64 1 - 1);
          upper = drop_bit 64 big_int
      in (lower, upper))"

definition circular_shift :: "int \<Rightarrow> nat \<Rightarrow> int" where
  "circular_shift var shift =
     (case split_lower_upper_words (push_bit shift var) of (lower, upper) \<Rightarrow> lower OR upper)"

text \<open>\<open>str2int\<close>: the loop over \<open>enumerate(str_msg)\<close>, with the running index \<open>i\<close>.\<close>

fun str2int_loop :: "nat \<Rightarrow> pystr \<Rightarrow> int \<Rightarrow> int" where
  "str2int_loop i [] int_msg = int_msg"
| "str2int_loop i (c # cs) int_msg =
     str2int_loop (i + 1) cs (int_msg OR push_bit (push_bit 3 i) (int c))"

definition str2int :: "pystr \<Rightarrow> int" where
  "str2int str_msg = str2int_loop 0 str_msg 0"

definition negate :: "int \<Rightarrow> int" where
  "negate val = - (val XOR (push_bit 64 1 - 1)) - 1"

text \<open>
  Python's \<open>bin\<close>: \<open>'0b'\<close> followed by the binary digits of a non-negative integer, and
  \<open>'-0b'\<close> followed by the digits of the magnitude of a negative one.
\<close>

fun bin_digits :: "nat \<Rightarrow> string \<Rightarrow> string" where
  "bin_digits n acc =
     (if n < 2 then (if n = 0 then CHR ''0'' else CHR ''1'') # acc
      else bin_digits (n div 2) ((if n mod 2 = 0 then CHR ''0'' else CHR ''1'') # acc))"

declare bin_digits.simps [simp del]

definition bin :: "int \<Rightarrow> string" where
  "bin n = (if n < 0 then ''-0b'' @ bin_digits (nat (- n)) [] else ''0b'' @ bin_digits (nat n) [])"

text \<open>
  The state of a \<open>SipHash\<close> object.  The \<open>verbose\<close> flag only controls printing and is left
  out, as is all printing.  The secret key is the one the object ends up with: the argument
  of the constructor, or the interpreter's own key when the argument is \<open>None\<close>.
\<close>

record siphash =
  secret_key :: int
  state_variables :: "int list"
  hash_value :: int
  allow_negative :: bool

definition SipHash :: "int \<Rightarrow> bool \<Rightarrow> siphash" where
  "SipHash secret allow_neg =
     \<lparr>secret_key = secret, state_variables = [0, 0, 0, 0], hash_value = 0,
      allow_negative = allow_neg\<rparr>"

text \<open>
  \<open>__get_default_secret_key\<close> reads two unsigned 64-bit words \<open>k0\<close>, \<open>k1\<close> of the running
  interpreter; they are parameters here.
\<close>

definition get_default_secret_key :: "64 word \<Rightarrow> 64 word \<Rightarrow> int" where
  "get_default_secret_key k0 k1 = push_bit 64 (uint k1) OR uint k0"

definition add_size_byte :: "int \<Rightarrow> int" where
  "add_size_byte msg =
     (let size_bits = int (length (bin msg)) - 2;
          size_bytes = drop_bit 3 (size_bits + 7);
          size_words = drop_bit 3 (size_bytes + 8);
          size_bytes = size_bytes AND 255;
          size_words = push_bit 6 size_words;
          updated_msg = msg OR push_bit (nat (size_words - 8)) size_bytes
      in updated_msg)"

definition half_sipround :: "nat \<Rightarrow> nat \<Rightarrow> siphash \<Rightarrow> siphash" where
  "half_sipround s t self =
     (let var = state_variables self;
          var = var[0 := fst (split_lower_upper_words (var ! 0 + var ! 1))];
          var = var[2 := fst (split_lower_upper_words (var ! 2 + var ! 3))];
          var = var[1 := circular_shift (var ! 1) s XOR var ! 0];
          var = var[3 := circular_shift (var ! 3) t XOR var ! 2];
          var = var[0 := circular_shift (var ! 0) 32];
          var = var[0 := var ! 2, 2 := var ! 0]
      in self\<lparr>state_variables := var\<rparr>)"

definition double_sipround :: "siphash \<Rightarrow> siphash" where
  "double_sipround self =
     half_sipround 17 21 (half_sipround 13 16 (half_sipround 17 21 (half_sipround 13 16 self)))"

definition initialization :: "siphash \<Rightarrow> siphash" where
  "initialization self =
     (case split_lower_upper_words (secret_key self) of (k0, k1) \<Rightarrow>
        self\<lparr>state_variables := (state_variables self)
          [0 := k0 XOR 0x736F6D6570736575,
           1 := k1 XOR 0x646F72616E646F6D,
           2 := k0 XOR 0x6C7967656E657261,
           3 := k1 XOR 0x7465646279746573]\<rparr>)"

definition reset :: "siphash \<Rightarrow> siphash" where
  "reset self = (initialization (self\<lparr>state_variables := [0, 0, 0, 0]\<rparr>))\<lparr>hash_value := 0\<rparr>"

definition compress_word :: "int \<Rightarrow> siphash \<Rightarrow> siphash" where
  "compress_word word self =
     (let self = self\<lparr>state_variables :=
                   (state_variables self)[3 := state_variables self ! 3 XOR word]\<rparr>;
          self = double_sipround self
      in self\<lparr>state_variables :=
                   (state_variables self)[0 := state_variables self ! 0 XOR word]\<rparr>)"

text \<open>
  The loop \<open>while upper: ...\<close> of \<open>__compression\<close>.  It need not end, so it is a partial
  function: \<open>None\<close> is the run that never leaves the loop.
\<close>

partial_function (option) compression_loop :: "int \<Rightarrow> siphash \<Rightarrow> siphash option" where
  "compression_loop upper self =
     (if upper \<noteq> 0 then
        (case split_lower_upper_words upper of (lower, upper') \<Rightarrow>
           compression_loop upper' (compress_word lower self))
      else Some self)"

declare compression_loop.simps [code]

definition compression :: "int \<Rightarrow> siphash \<Rightarrow> siphash option" where
  "compression msg self =
     (let updated_msg = add_size_byte msg in
      case split_lower_upper_words updated_msg of (lower, upper) \<Rightarrow>
        compression_loop upper (compress_word lower self))"

definition finalization :: "siphash \<Rightarrow> siphash" where
  "finalization self =
     double_sipround (double_sipround
       (self\<lparr>state_variables := (state_variables self)[2 := state_variables self ! 2 XOR 0xFF]\<rparr>))"

definition siphash_main :: "int \<Rightarrow> siphash \<Rightarrow> siphash option" where
  "siphash_main int_msg self =
     (case compression int_msg self of
        None \<Rightarrow> None
      | Some self \<Rightarrow>
          (let self = finalization self;
               self = self\<lparr>hash_value := foldl (XOR) (hash_value self) (state_variables self)\<rparr>
           in Some (if hash_value self AND push_bit 63 1 \<noteq> 0 \<and> \<not> allow_negative self
                    then self\<lparr>hash_value := negate (hash_value self)\<rparr> else self)))"

text \<open>
  \<open>get_hash\<close> returns the hash value and leaves the object in its new state; for an object
  that is neither a string nor an integer the message is \<open>id(input_msg)\<close>.
\<close>

definition get_hash :: "pyobj \<Rightarrow> siphash \<Rightarrow> (int \<times> siphash) option" where
  "get_hash input_msg self =
     map_option (\<lambda>self. (hash_value self, self))
       (case input_msg of
          PyStr s \<Rightarrow> siphash_main (str2int s) (reset self)
        | PyInt n \<Rightarrow> siphash_main n (reset self)
        | PyObj ident \<Rightarrow> siphash_main (int ident) (reset self))"

section \<open>hashtable.py\<close>

subsection \<open>HashTableEntry\<close>

text \<open>
  All entries hash with one \<open>SipHash\<close> object, a class attribute built with
  \<open>allow_negative=True\<close> and the interpreter's secret key; \<open>secret\<close> is that key.
  \<open>get_hash\<close> resets the object before it hashes, so the state a previous call left behind
  plays no role and a fresh object stands for it.  \<open>hash_compress_bits\<close> is the class
  attribute, 0 in the source.
\<close>

definition hash_compress_bits :: nat where
  "hash_compress_bits = 0"

partial_function (option) compress_hash_loop :: "int \<Rightarrow> int \<Rightarrow> int \<Rightarrow> int option" where
  "compress_hash_loop lower hv compressed_hash =
     (if hv \<noteq> 0 then
        compress_hash_loop lower (drop_bit hash_compress_bits hv) (compressed_hash XOR (hv AND lower))
      else Some compressed_hash)"

declare compress_hash_loop.simps [code]

definition compress_hash :: "int \<Rightarrow> int option" where
  "compress_hash hv = compress_hash_loop (push_bit hash_compress_bits 1 - 1) hv 0"

definition entry_get_hash :: "int \<Rightarrow> pyobj \<Rightarrow> int option" where
  "entry_get_hash secret k =
     (case get_hash k (SipHash secret True) of
        None \<Rightarrow> None
      | Some (hv, _) \<Rightarrow> if hash_compress_bits \<noteq> 0 then compress_hash hv else Some hv)"

record entry =
  entry_key :: "pyobj option"
  entry_value :: "pyobj option"
  entry_hash_value :: "int option"
  entry_dummy :: bool

text \<open>The constructor hashes the key, which may not return.\<close>

definition HashTableEntry :: "int \<Rightarrow> pyobj option \<Rightarrow> pyobj option \<Rightarrow> entry option" where
  "HashTableEntry secret k v =
     (case k of
        None \<Rightarrow> Some \<lparr>entry_key = None, entry_value = v, entry_hash_value = None,
                       entry_dummy = False\<rparr>
      | Some k' \<Rightarrow>
          map_option
            (\<lambda>hv. \<lparr>entry_key = k, entry_value = v, entry_hash_value = Some hv,
                    entry_dummy = False\<rparr>)
            (entry_get_hash secret k'))"

text \<open>
  \<open>__eq__\<close> compares the hash values and then the keys with \<open>==\<close>, which on the values of
  \<open>pyobj\<close> is equality: of the characters for strings, of the numbers for integers, of the
  identities for the other objects.
\<close>

definition entry_eq :: "entry \<Rightarrow> entry \<Rightarrow> bool" where
  "entry_eq self other =
     (if entry_hash_value self \<noteq> entry_hash_value other then False
      else entry_key self = entry_key other)"

definition set_dummy :: "entry \<Rightarrow> entry" where
  "set_dummy self = self\<lparr>entry_dummy := True\<rparr>"

definition entry_state :: "entry \<Rightarrow> int" where
  "entry_state self =
     (if entry_dummy self then - 1 else if entry_hash_value self = None then 0 else 1)"

definition is_dummy :: "entry \<Rightarrow> bool" where
  "is_dummy self = (entry_state self = - 1)"

definition is_filled :: "entry \<Rightarrow> bool" where
  "is_filled self = (entry_state self = 1)"

definition is_empty :: "entry \<Rightarrow> bool" where
  "is_empty self = (entry_state self = 0)"

subsection \<open>HashTable\<close>

text \<open>
  The fields of a table.  \<open>ht_probe\<close> stands for the bound method stored in
  \<open>__get_new_index\<close>.  The \<open>verbose\<close> flag and the printing it controls are left out.
  \<open>set_dummy\<close> mutates an entry object in place; the only object that sits in more than one
  slot is the empty entry of \<open>__init_internal_list\<close>, which is never mutated (\<open>remove\<close>
  marks filled entries only), so a list of entry values stands for the list of objects.
\<close>

datatype probing = simple_linear_probing | modified_linear_probing | pythonic_linear_probing

record hashtable =
  ht_size :: int
  ht_used :: int
  ht_update_used :: bool
  ht_internal_list :: "entry list"
  collision_counter :: int
  ht_hash_key :: "int option"
  ht_probe :: probing

definition load_factor :: rat where
  "load_factor = 1"

definition init_internal_list :: "int \<Rightarrow> entry list" where
  "init_internal_list sz =
     replicate (nat sz)
       \<lparr>entry_key = None, entry_value = None, entry_hash_value = None, entry_dummy = False\<rparr>"

text \<open>
  \<open>HashTable.__init__\<close>: the \<open>assert\<close> raises before any method is bound, and the call then
  returns no object.
\<close>

definition HashTable :: "int option \<Rightarrow> string \<Rightarrow> error + hashtable" where
  "HashTable hash_key collision_resolution =
     (let new = (\<lambda>p. \<lparr>ht_size = 8, ht_used = 0, ht_update_used = True,
                        ht_internal_list = init_internal_list 8, collision_counter = 0,
                        ht_hash_key = hash_key, ht_probe = p\<rparr>)
      in if collision_resolution \<notin> set [''simple'', ''modified'', ''pythonic'']
         then Inl AssertionError
         else if collision_resolution = ''simple'' then Inr (new simple_linear_probing)
         else if collision_resolution = ''modified'' then Inr (new modified_linear_probing)
         else if collision_resolution = ''pythonic'' then Inr (new pythonic_linear_probing)
         else Inl AssertionError)"

text \<open>
  Python list indexing: a negative index counts from the end, an index out of range raises
  \<open>IndexError\<close>.
\<close>

definition list_index :: "'a list \<Rightarrow> int \<Rightarrow> error + nat" where
  "list_index xs i =
     (let n = int (length xs); j = (if i < 0 then n + i else i)
      in if 0 \<le> j \<and> j < n then Inr (nat j) else Inl IndexError)"

definition get_new_index :: "hashtable \<Rightarrow> int \<Rightarrow> int \<Rightarrow> int \<times> int" where
  "get_new_index self prev_index hv =
     (case ht_probe self of
        simple_linear_probing \<Rightarrow> ((prev_index + 1) AND (ht_size self - 1), hv)
      | modified_linear_probing \<Rightarrow> ((5 * prev_index + 1) AND (ht_size self - 1), hv)
      | pythonic_linear_probing \<Rightarrow>
          ((5 * prev_index + 1 + hv) AND (ht_size self - 1), drop_bit 5 hv))"

definition print_collision :: "hashtable \<Rightarrow> hashtable" where
  "print_collision self = self\<lparr>collision_counter := collision_counter self + 1\<rparr>"

text \<open>
  The \<open>while True\<close> loop of \<open>__lookup_key\<close>, which returns the index found and the table
  with its collision counter advanced.  \<open>None\<close> is the run that never leaves the loop.
\<close>

partial_function (option) lookup_loop ::
  "entry \<Rightarrow> bool \<Rightarrow> int \<Rightarrow> int \<Rightarrow> hashtable \<Rightarrow> (error + int \<times> hashtable) option" where
  "lookup_loop entry skip_dummy index hv self =
     (case list_index (ht_internal_list self) index of
        Inl e \<Rightarrow> Some (Inl e)
      | Inr i \<Rightarrow>
          if is_dummy (ht_internal_list self ! i) then
            if \<not> skip_dummy then Some (Inr (index, self))
            else (case get_new_index self index hv of (index', hv') \<Rightarrow>
                    lookup_loop entry skip_dummy index' hv' (print_collision self))
          else if is_filled (ht_internal_list self ! i) then
            if entry_eq entry (ht_internal_list self ! i) then Some (Inr (index, self))
            else (case get_new_index self index hv of (index', hv') \<Rightarrow>
                    lookup_loop entry skip_dummy index' hv' (print_collision self))
          else Some (Inr (index, self)))"

declare lookup_loop.simps [code]

text \<open>\<open>hash_value & (size - 1)\<close> raises \<open>TypeError\<close> for the key \<open>None\<close>, whose entry has no hash.\<close>

definition lookup_key ::
  "int \<Rightarrow> pyobj option \<Rightarrow> bool \<Rightarrow> hashtable \<Rightarrow> (error + int \<times> hashtable) option" where
  "lookup_key secret k skip_dummy self =
     (case HashTableEntry secret k None of
        None \<Rightarrow> None
      | Some entry \<Rightarrow>
          (case entry_hash_value entry of
             None \<Rightarrow> Some (Inl TypeError)
           | Some hv \<Rightarrow> lookup_loop entry skip_dummy (hv AND (ht_size self - 1)) hv self))"

definition get_items ::
  "hashtable \<Rightarrow> pyobj option list \<times> pyobj option list \<times> int option list" where
  "get_items self =
     (let filled = filter is_filled (ht_internal_list self)
      in (map entry_key filled, map entry_value filled, map entry_hash_value filled))"

definition items :: "hashtable \<Rightarrow> (pyobj option \<times> pyobj option) list" where
  "items self = (case get_items self of (keys, values, _) \<Rightarrow> zip keys values)"

definition keys :: "hashtable \<Rightarrow> pyobj option list" where
  "keys self = fst (get_items self)"

definition values_list :: "hashtable \<Rightarrow> pyobj option list" where
  "values_list self = fst (snd (get_items self))"

text \<open>
  \<open>get\<close> returns the value found, \<open>None\<close> when the slot is not filled, and the table (whose
  collision counter the lookup advances).
\<close>

definition get ::
  "int \<Rightarrow> pyobj option \<Rightarrow> hashtable \<Rightarrow> (error + pyobj option \<times> hashtable) option" where
  "get secret k self =
     (case lookup_key secret k True self of
        None \<Rightarrow> None
      | Some (Inl e) \<Rightarrow> Some (Inl e)
      | Some (Inr (index, self)) \<Rightarrow>
          (case list_index (ht_internal_list self) index of
             Inl e \<Rightarrow> Some (Inl e)
           | Inr i \<Rightarrow>
               if is_filled (ht_internal_list self ! i)
               then Some (Inr (entry_value (ht_internal_list self ! i), self))
               else Some (Inr (None, self))))"

definition remove :: "int \<Rightarrow> pyobj option \<Rightarrow> hashtable \<Rightarrow> (error + hashtable) option" where
  "remove secret k self =
     (case lookup_key secret k True self of
        None \<Rightarrow> None
      | Some (Inl e) \<Rightarrow> Some (Inl e)
      | Some (Inr (index, self)) \<Rightarrow>
          (case list_index (ht_internal_list self) index of
             Inl e \<Rightarrow> Some (Inl e)
           | Inr i \<Rightarrow>
               if is_filled (ht_internal_list self ! i)
               then Some (Inr (self\<lparr>ht_internal_list :=
                             (ht_internal_list self)[i := set_dummy (ht_internal_list self ! i)]\<rparr>))
               else Some (Inr self)))"

text \<open>
  \<open>update\<close> calls \<open>__increment_size\<close>, whose loop calls \<open>update\<close> for every item: the three
  are one recursive function over the call made.  \<open>(used + 1) / size\<close> is Python's true
  division, taken exactly here (the two agree while the numbers stay below \<open>2 ^ 53\<close>), which
  raises \<open>ZeroDivisionError\<close> when the size is 0.
\<close>

datatype call =
  Update "pyobj option" "pyobj option"
| IncrementSize
| ForItems "(pyobj option \<times> pyobj option) list"

abbreviation and_then ::
  "(error + 'a) option \<Rightarrow> ('a \<Rightarrow> (error + 'b) option) \<Rightarrow> (error + 'b) option" where
  "and_then m f \<equiv> Option.bind m (\<lambda>r. case r of Inl e \<Rightarrow> Some (Inl e) | Inr x \<Rightarrow> f x)"

partial_function (option) run :: "int \<Rightarrow> call \<Rightarrow> hashtable \<Rightarrow> (error + hashtable) option" where
  "run secret c self =
     (case c of
        Update k v \<Rightarrow>
          if ht_size self = 0 then Some (Inl ZeroDivisionError)
          else
            and_then
              (if rat_of_int (ht_used self + 1) / rat_of_int (ht_size self) > load_factor
               then run secret IncrementSize self else Some (Inr self))
              (\<lambda>self.
                 and_then (lookup_key secret k False self)
                   (\<lambda>(index, self).
                      case list_index (ht_internal_list self) index of
                        Inl e \<Rightarrow> Some (Inl e)
                      | Inr i \<Rightarrow>
                          (let self =
                             (if \<not> is_dummy (ht_internal_list self ! i) \<and> ht_update_used self
                              then self\<lparr>ht_used := ht_used self + 1\<rparr> else self)
                           in case HashTableEntry secret k v of
                                None \<Rightarrow> None
                              | Some new \<Rightarrow>
                                  Some (Inr (self\<lparr>ht_internal_list :=
                                               (ht_internal_list self)[i := new]\<rparr>)))))
      | IncrementSize \<Rightarrow>
          (let self = self\<lparr>ht_update_used := False\<rparr>;
               self = self\<lparr>ht_size := push_bit 1 (ht_size self)\<rparr>;
               its = items self;
               self = self\<lparr>ht_internal_list := init_internal_list (ht_size self)\<rparr>
           in and_then (run secret (ForItems its) self)
                (\<lambda>self. Some (Inr (self\<lparr>ht_update_used := True\<rparr>))))
      | ForItems its \<Rightarrow>
          (case its of
             [] \<Rightarrow> Some (Inr self)
           | (k, v) # rest \<Rightarrow>
               and_then (run secret (Update k v) self) (\<lambda>self. run secret (ForItems rest) self)))"

declare run.simps [code]

definition update :: "int \<Rightarrow> pyobj option \<Rightarrow> pyobj option \<Rightarrow> hashtable \<Rightarrow> (error + hashtable) option" where
  "update secret k v self = run secret (Update k v) self"

definition increment_size :: "int \<Rightarrow> hashtable \<Rightarrow> (error + hashtable) option" where
  "increment_size secret self = run secret IncrementSize self"

subsection \<open>Auxiliary notions\<close>

text \<open>
  The pieces of \<open>update\<close>, named for the proofs: the test that triggers a resize, the table
  \<open>__increment_size\<close> starts its loop with, the final assignment of \<open>update\<close>, and the part
  of \<open>update\<close> that follows the resize.
\<close>

definition needs_resize :: "hashtable \<Rightarrow> bool" where
  "needs_resize self = (rat_of_int (ht_used self + 1) / rat_of_int (ht_size self) > load_factor)"

definition prepare_resize :: "hashtable \<Rightarrow> hashtable" where
  "prepare_resize self =
     self\<lparr>ht_update_used := False, ht_size := push_bit 1 (ht_size self),
          ht_internal_list := init_internal_list (push_bit 1 (ht_size self))\<rparr>"

definition place :: "hashtable \<Rightarrow> nat \<Rightarrow> entry \<Rightarrow> hashtable" where
  "place self i new =
     (if \<not> is_dummy (ht_internal_list self ! i) \<and> ht_update_used self
      then self\<lparr>ht_used := ht_used self + 1\<rparr> else self)
     \<lparr>ht_internal_list := (ht_internal_list self)[i := new]\<rparr>"

definition insert_at ::
  "int \<Rightarrow> pyobj option \<Rightarrow> pyobj option \<Rightarrow> hashtable \<Rightarrow> (error + hashtable) option" where
  "insert_at secret k v self =
     and_then (lookup_key secret k False self)
       (\<lambda>(index, self).
          case list_index (ht_internal_list self) index of
            Inl e \<Rightarrow> Some (Inl e)
          | Inr i \<Rightarrow>
              (case HashTableEntry secret k v of
                 None \<Rightarrow> None
               | Some new \<Rightarrow> Some (Inr (place self i new))))"

text \<open>Whether a call returned normally, and what it returned.\<close>

definition returned :: "(error + 'a) option \<Rightarrow> bool" where
  "returned r = (case r of Some (Inr _) \<Rightarrow> True | _ \<Rightarrow> False)"

definition result :: "(error + 'a) option \<Rightarrow> 'a" where
  "result r = projr (the r)"

text \<open>
  The bit length the length tag is computed from: the number of binary digits of \<open>n\<close>, with
  one digit for 0.
\<close>

fun bit_length :: "nat \<Rightarrow> nat" where
  "bit_length n = (if n < 2 then 1 else Suc (bit_length (n div 2)))"

declare bit_length.simps [simp del]

text \<open>
  The length tagging as the claim words it: with \<open>L'\<close> the byte length of the message, \<open>L\<close>
  its low byte and \<open>W = (L' + 8) >> 3\<close>, the result is \<open>m | (L << (8 * W - 8))\<close>.
\<close>

definition claimed_add_size_byte :: "int \<Rightarrow> int" where
  "claimed_add_size_byte m =
     (let L' = (bit_length (nat m) + 7) div 8; W = (L' + 8) div 8; L = L' mod 256
      in m OR push_bit (8 * W - 8) (int L))"

text \<open>
  The invariants of a table.  An entry is as its constructor and \<open>set_dummy\<close> leave it: without
  a key it has no hash and is not a dummy, with a key it carries the hash of that key.  The size
  is a power of two and the length of the internal list.  Between calls \<open>__update_used\<close> is
  set, the slots that are not empty are at most \<open>__used\<close>, and \<open>__used\<close> is at most the
  size; inside the loop of \<open>__increment_size\<close> the flag is cleared and one more slot is free.
\<close>

definition count_nonempty :: "entry list \<Rightarrow> nat" where
  "count_nonempty es = length (filter (\<lambda>e. \<not> is_empty e) es)"

definition entry_ok :: "int \<Rightarrow> entry \<Rightarrow> bool" where
  "entry_ok secret e =
     (case entry_key e of
        None \<Rightarrow> entry_hash_value e = None \<and> \<not> entry_dummy e
      | Some k \<Rightarrow> entry_hash_value e \<noteq> None \<and> entry_hash_value e = entry_get_hash secret k)"

definition table_ok :: "int \<Rightarrow> hashtable \<Rightarrow> bool" where
  "table_ok secret self =
     ((\<exists>m. ht_size self = 2 ^ m) \<and>
      int (length (ht_internal_list self)) = ht_size self \<and>
      (\<forall>e \<in> set (ht_internal_list self). entry_ok secret e))"

definition table_inv :: "int \<Rightarrow> hashtable \<Rightarrow> bool" where
  "table_inv secret self =
     (table_ok secret self \<and> ht_update_used self \<and>
      int (count_nonempty (ht_internal_list self)) \<le> ht_used self \<and>
      ht_used self \<le> ht_size self)"

definition replay_inv :: "int \<Rightarrow> hashtable \<Rightarrow> bool" where
  "replay_inv secret self =
     (table_ok secret self \<and> \<not> ht_update_used self \<and> ht_used self + 1 \<le> ht_size self)"

text \<open>
  The tables a program can hold: a new one, and the one left by a call of \<open>update\<close>,
  \<open>remove\<close> or \<open>get\<close> on such a table.  An \<open>update\<close> with the key \<open>None\<close> raises
  \<open>TypeError\<close> in its lookup, after the resize when one was due; the table it leaves behind is
  then the resized one.
\<close>

inductive reachable :: "int \<Rightarrow> hashtable \<Rightarrow> bool" for secret :: int where
  fresh: "HashTable hash_key cr = Inr self \<Longrightarrow> reachable secret self"
| after_update:
    "reachable secret self \<Longrightarrow> update secret k v self = Some (Inr self') \<Longrightarrow>
     reachable secret self'"
| after_remove:
    "reachable secret self \<Longrightarrow> remove secret k self = Some (Inr self') \<Longrightarrow>
     reachable secret self'"
| after_get:
    "reachable secret self \<Longrightarrow> get secret k self = Some (Inr (r, self')) \<Longrightarrow>
     reachable secret self'"
| after_raising_update:
    "reachable secret self \<Longrightarrow> needs_resize self \<Longrightarrow>
     increment_size secret self = Some (Inr self') \<Longrightarrow> reachable secret self'"

text \<open>The tables \<open>update\<close> is called on inside the loop of \<open>__increment_size\<close>.\<close>

inductive in_replay :: "int \<Rightarrow> hashtable \<Rightarrow> bool" for secret :: int where
  replay_start:
    "reachable secret self \<Longrightarrow> needs_resize self \<Longrightarrow> in_replay secret (prepare_resize self)"
| replay_step:
    "in_replay secret self \<Longrightarrow> update secret k v self = Some (Inr self') \<Longrightarrow>
     in_replay secret self'"

text \<open>The table \<open>update\<close> looks the key up in: the resized one when a resize is due.\<close>

definition grow :: "int \<Rightarrow> hashtable \<Rightarrow> (error + hashtable) option" where
  "grow secret self = (if needs_resize self then increment_size secret self else Some (Inr self))"

text \<open>
  A program that calls the table: one call, a sequence of calls run until one raises, and the
  value \<open>get\<close> returns.
\<close>

datatype operation =
  CallUpdate "pyobj option" "pyobj option"
| CallRemove "pyobj option"
| CallGet "pyobj option"

fun perform :: "int \<Rightarrow> operation \<Rightarrow> hashtable \<Rightarrow> (error + hashtable) option" where
  "perform secret (CallUpdate k v) self = update secret k v self"
| "perform secret (CallRemove k) self = remove secret k self"
| "perform secret (CallGet k) self =
     (case get secret k self of
        None \<Rightarrow> None
      | Some (Inl e) \<Rightarrow> Some (Inl e)
      | Some (Inr (r, self')) \<Rightarrow> Some (Inr self'))"

fun perform_all :: "int \<Rightarrow> operation list \<Rightarrow> hashtable \<Rightarrow> (error + hashtable) option" where
  "perform_all secret [] self = Some (Inr self)"
| "perform_all secret (c # cs) self = and_then (perform secret c self) (perform_all secret cs)"

definition get_value :: "int \<Rightarrow> pyobj option \<Rightarrow> hashtable \<Rightarrow> (error + pyobj option) option" where
  "get_value secret k self = map_option (map_sum id fst) (get secret k self)"

text \<open>
  The lookup loop in terms of the probe chain: whether the loop returns at a slot, and the
  index and hash it holds after \<open>n\<close> steps.
\<close>

definition stops :: "entry \<Rightarrow> bool \<Rightarrow> entry \<Rightarrow> bool" where
  "stops entry skip_dummy slot =
     (if is_dummy slot then \<not> skip_dummy
      else if is_filled slot then entry_eq entry slot
      else True)"

definition probe_chain :: "hashtable \<Rightarrow> nat \<Rightarrow> int \<times> int \<Rightarrow> int \<times> int" where
  "probe_chain self n = (\<lambda>(index, hv). get_new_index self index hv) ^^ n"

text \<open>A \<open>SipHash\<close> state whose four state variables are not negative.\<close>

definition nonneg_state :: "siphash \<Rightarrow> bool" where
  "nonneg_state self =
     (\<exists>a b c d. state_variables self = [a, b, c, d] \<and> 0 \<le> a \<and> 0 \<le> b \<and> 0 \<le> c \<and> 0 \<le> d)"

text \<open>A table without dummy entries, and the calls that store the squares of \<open>0 .. n - 1\<close>.\<close>

definition no_dummies :: "hashtable \<Rightarrow> bool" where
  "no_dummies self = (\<forall>e \<in> set (ht_internal_list self). \<not> is_dummy e)"

definition squares :: "int \<Rightarrow> operation list" where
  "squares n = map (\<lambda>i. CallUpdate (Some (PyInt i)) (Some (PyInt (i * i)))) [0..n - 1]"

text \<open>A table of \<open>n\<close> slots, all of them filled, none of them with the key \<open>kk\<close>.\<close>

definition full_without :: "pyobj \<Rightarrow> nat \<Rightarrow> hashtable \<Rightarrow> bool" where
  "full_without kk n self =
     (ht_size self = int n \<and> length (ht_internal_list self) = n \<and>
      list_all (\<lambda>e. is_filled e \<and> entry_key e \<noteq> Some kk) (ht_internal_list self))"

section \<open>Properties\<close>

subsection \<open>The recursion of \<open>update\<close> and \<open>__increment_size\<close>\<close>

lemma insert_at_alt:
  "(\<lambda>self. and_then (lookup_key secret k False self)
      (\<lambda>(index, self).
         case list_index (ht_internal_list self) index of
           Inl e \<Rightarrow> Some (Inl e)
         | Inr i \<Rightarrow>
             (let self = (if \<not> is_dummy (ht_internal_list self ! i) \<and> ht_update_used self
                          then self\<lparr>ht_used := ht_used self + 1\<rparr> else self)
              in case HashTableEntry secret k v of
                   None \<Rightarrow> None
                 | Some new \<Rightarrow>
                     Some (Inr (self\<lparr>ht_internal_list := (ht_internal_list self)[i := new]\<rparr>)))))
   = insert_at secret k v"
  unfolding insert_at_def place_def Let_def
  by (intro ext arg_cong2[where f = Option.bind] refl)
     (simp split: sum.splits prod.splits option.splits)

lemma run_Update:
  "run secret (Update k v) self =
     (if ht_size self = 0 then Some (Inl ZeroDivisionError)
      else and_then (if needs_resize self then run secret IncrementSize self else Some (Inr self))
             (insert_at secret k v))"
  by (subst run.simps) (simp only: call.case insert_at_alt needs_resize_def[symmetric])

lemma run_IncrementSize:
  "run secret IncrementSize self =
     and_then (run secret (ForItems (items self)) (prepare_resize self))
       (\<lambda>self. Some (Inr (self\<lparr>ht_update_used := True\<rparr>)))"
  by (subst run.simps) (simp add: items_def get_items_def Let_def prepare_resize_def)

lemma run_ForItems_Nil: "run secret (ForItems []) self = Some (Inr self)"
  by (subst run.simps) simp

lemma run_ForItems_Cons:
  "run secret (ForItems ((k, v) # rest)) self =
     and_then (run secret (Update k v) self) (\<lambda>self. run secret (ForItems rest) self)"
  by (subst run.simps) simp


lemma insert_at_InrE:
  assumes "insert_at secret k v self = Some (Inr self')"
  obtains index self2 i new where
    "lookup_key secret k False self = Some (Inr (index, self2))"
    "list_index (ht_internal_list self2) index = Inr i"
    "HashTableEntry secret k v = Some new"
    "self' = place self2 i new"
  using assms unfolding insert_at_def
  by (auto split: option.splits sum.splits prod.splits Option.bind_splits)

lemma run_induct [consumes 1, case_names Update IncrementSize Nil Cons]:
  assumes "run secret c self = Some (Inr self')"
  assumes U: "\<And>k v self self1 self'.
      ht_size self \<noteq> 0 \<Longrightarrow>
      (needs_resize self \<longrightarrow> run secret IncrementSize self = Some (Inr self1) \<and> P IncrementSize self self1) \<Longrightarrow>
      (\<not> needs_resize self \<longrightarrow> self1 = self) \<Longrightarrow>
      insert_at secret k v self1 = Some (Inr self') \<Longrightarrow>
      P (Update k v) self self'"
  assumes I: "\<And>self self'.
      run secret (ForItems (items self)) (prepare_resize self) = Some (Inr self') \<Longrightarrow>
      P (ForItems (items self)) (prepare_resize self) self' \<Longrightarrow>
      P IncrementSize self (self'\<lparr>ht_update_used := True\<rparr>)"
  assumes N: "\<And>self. P (ForItems []) self self"
  assumes C: "\<And>k v rest self self1 self'.
      run secret (Update k v) self = Some (Inr self1) \<Longrightarrow> P (Update k v) self self1 \<Longrightarrow>
      run secret (ForItems rest) self1 = Some (Inr self') \<Longrightarrow> P (ForItems rest) self1 self' \<Longrightarrow>
      P (ForItems ((k, v) # rest)) self self'"
  shows "P c self self'"
proof -
  let ?Q = "\<lambda>s c self r. s = secret \<longrightarrow>
              run secret c self = Some r \<and> (case r of Inl e \<Rightarrow> True | Inr self' \<Rightarrow> P c self self')"
  have "?Q secret c self (Inr self')"
    using assms(1)
  proof (rule run.raw_induct [rotated 1, where P = ?Q], goal_cases)
    case (1 f s c self r)
    show ?case
    proof (intro impI)
      assume s: "s = secret"
      note IH = 1(1)[rule_format]
      show "run secret c self = Some r \<and> (case r of Inl e \<Rightarrow> True | Inr self' \<Rightarrow> P c self self')"
      proof (cases c)
        case (Update k v)
        have body: "(if ht_size self = 0 then Some (Inl ZeroDivisionError)
                     else and_then (if needs_resize self then f secret IncrementSize self else Some (Inr self))
                            (insert_at secret k v)) = Some r"
          using 1(2) unfolding Update s call.case insert_at_alt needs_resize_def[symmetric] .
        show ?thesis
        proof (cases "ht_size self = 0")
          case True
          then show ?thesis using body by (auto simp: Update run_Update)
        next
          case nz: False
          show ?thesis
          proof (cases "needs_resize self")
            case True
            then obtain y where y: "f secret IncrementSize self = Some y"
              using body nz by (auto split: Option.bind_splits)
            from IH[OF y] have ry: "run secret IncrementSize self = Some y"
              and Py: "case y of Inl e \<Rightarrow> True | Inr self' \<Rightarrow> P IncrementSize self self'" by auto
            have eq: "run secret c self = Some r"
              using body nz True y ry by (simp add: Update run_Update)
            moreover have "case r of Inl e \<Rightarrow> True | Inr self' \<Rightarrow> P c self self'"
            proof (cases r)
              case (Inr self')
              then obtain self1 where y1: "y = Inr self1" and ins: "insert_at secret k v self1 = Some (Inr self')"
                using body nz True y by (auto split: sum.splits)
              show ?thesis unfolding Inr Update using U[OF nz, of self1 k v self'] True ry Py y1 ins by simp
            qed simp
            ultimately show ?thesis by simp
          next
            case False
            have eq: "run secret c self = Some r"
              using body nz False by (simp add: Update run_Update)
            moreover have "case r of Inl e \<Rightarrow> True | Inr self' \<Rightarrow> P c self self'"
            proof (cases r)
              case (Inr self')
              then have ins: "insert_at secret k v self = Some (Inr self')"
                using body nz False by (auto split: sum.splits)
              show ?thesis unfolding Inr Update using U[OF nz, of self k v self'] False ins by simp
            qed simp
            ultimately show ?thesis by simp
          qed
        qed
      next
        case IncrementSize
        have body: "and_then (f secret (ForItems (items self)) (prepare_resize self))
                      (\<lambda>self. Some (Inr (self\<lparr>ht_update_used := True\<rparr>))) = Some r"
          using 1(2) unfolding IncrementSize s
          by (simp add: items_def get_items_def Let_def prepare_resize_def)
        then obtain y where y: "f secret (ForItems (items self)) (prepare_resize self) = Some y"
          by (auto split: Option.bind_splits)
        from IH[OF y] have ry: "run secret (ForItems (items self)) (prepare_resize self) = Some y"
          and Py: "case y of Inl e \<Rightarrow> True | Inr self' \<Rightarrow> P (ForItems (items self)) (prepare_resize self) self'"
          by auto
        have eq: "run secret c self = Some r"
          using body y ry by (simp add: IncrementSize run_IncrementSize)
        moreover have "case r of Inl e \<Rightarrow> True | Inr self' \<Rightarrow> P c self self'"
        proof (cases y)
          case (Inl e)
          then show ?thesis using body y by auto
        next
          case (Inr self1)
          then have "r = Inr (self1\<lparr>ht_update_used := True\<rparr>)" using body y by auto
          then show ?thesis using I[of self self1] ry Py Inr by (simp add: IncrementSize)
        qed
        ultimately show ?thesis by simp
      next
        case (ForItems its)
        show ?thesis
        proof (cases its)
          case Nil
          then show ?thesis using 1(2) N by (auto simp: ForItems run_ForItems_Nil)
        next
          case (Cons kv rest)
          obtain k v where kv: "kv = (k, v)" by (cases kv)
          have body: "and_then (f secret (Update k v) self) (\<lambda>self. f secret (ForItems rest) self) = Some r"
            using 1(2) unfolding ForItems s Cons kv by simp
          then obtain y where y: "f secret (Update k v) self = Some y"
            by (auto split: Option.bind_splits)
          from IH[OF y] have ry: "run secret (Update k v) self = Some y"
            and Py: "case y of Inl e \<Rightarrow> True | Inr self' \<Rightarrow> P (Update k v) self self'" by auto
          show ?thesis
          proof (cases y)
            case (Inl e)
            then show ?thesis using body y ry by (auto simp: ForItems Cons kv run_ForItems_Cons)
          next
            case (Inr self1)
            then have z: "f secret (ForItems rest) self1 = Some r" using body y by simp
            from IH[OF z] have rz: "run secret (ForItems rest) self1 = Some r"
              and Pz: "case r of Inl e \<Rightarrow> True | Inr self' \<Rightarrow> P (ForItems rest) self1 self'" by auto
            have "run secret c self = Some r"
              using ry rz Inr by (simp add: ForItems Cons kv run_ForItems_Cons)
            moreover have "case r of Inl e \<Rightarrow> True | Inr self' \<Rightarrow> P c self self'"
            proof (cases r)
              case r: (Inr self')
              show ?thesis
                using C[OF ry[unfolded Inr] _ rz[unfolded r]] Py Pz
                by (simp add: Inr r ForItems Cons kv)
            qed simp
            ultimately show ?thesis by simp
          qed
        qed
      qed
    qed
  qed
  then show ?thesis by simp
qed

subsection \<open>What a lookup leaves unchanged\<close>

lemma lookup_loop_frame:
  assumes "lookup_loop entry skip_dummy index hv self = Some r"
  shows "case r of Inl e \<Rightarrow> True
         | Inr (index', self') \<Rightarrow> self' = self\<lparr>collision_counter := collision_counter self'\<rparr>"
  using assms
proof (rule lookup_loop.raw_induct [rotated 1, where P = "\<lambda>entry skip_dummy index hv self r.
     case r of Inl e \<Rightarrow> True
     | Inr (index', self') \<Rightarrow> self' = self\<lparr>collision_counter := collision_counter self'\<rparr>"], goal_cases)
  case (1 lookup_loop entry skip_dummy index hv self r)
  show ?case
    using 1(2) 1(1)
    by (fastforce split: sum.splits if_splits prod.splits simp: print_collision_def)
qed

lemma lookup_key_frame:
  assumes "lookup_key secret k skip_dummy self = Some (Inr (index, self'))"
  shows "self' = self\<lparr>collision_counter := collision_counter self'\<rparr>"
  using assms lookup_loop_frame [of _ skip_dummy _ _ self "Inr (index, self')"]
  by (auto simp: lookup_key_def split: option.splits)

lemma lookup_key_fields:
  assumes "lookup_key secret k skip_dummy self = Some (Inr (index, self'))"
  shows "ht_size self' = ht_size self" "ht_used self' = ht_used self"
    "ht_update_used self' = ht_update_used self" "ht_internal_list self' = ht_internal_list self"
    "ht_hash_key self' = ht_hash_key self" "ht_probe self' = ht_probe self"
proof -
  obtain c where "self' = self\<lparr>collision_counter := c\<rparr>"
    using lookup_key_frame[OF assms] by blast
  then show "ht_size self' = ht_size self" "ht_used self' = ht_used self"
    "ht_update_used self' = ht_update_used self" "ht_internal_list self' = ht_internal_list self"
    "ht_hash_key self' = ht_hash_key self" "ht_probe self' = ht_probe self"
    by simp_all
qed

lemma insert_at_probe:
  assumes "insert_at secret k v self = Some (Inr self')"
  shows "ht_probe self' = ht_probe self \<and> ht_hash_key self' = ht_hash_key self"
proof -
  from assms obtain index self2 i new where
    l: "lookup_key secret k False self = Some (Inr (index, self2))" and s': "self' = place self2 i new"
    by (rule insert_at_InrE)
  show ?thesis using lookup_key_fields[OF l] by (simp add: s' place_def)
qed

lemma run_probe:
  assumes "run secret c self = Some (Inr self')"
  shows "ht_probe self' = ht_probe self \<and> ht_hash_key self' = ht_hash_key self"
  using assms
proof (induction rule: run_induct)
  case (Update k v self self1 self')
  then show ?case using insert_at_probe[of secret k v self1 self'] by (cases "needs_resize self") auto
next
  case (IncrementSize self self')
  then show ?case by (simp add: prepare_resize_def)
qed auto

lemma get_InrE:
  assumes "get secret k self = Some (Inr (r, self'))"
  obtains index i where
    "lookup_key secret k True self = Some (Inr (index, self'))"
    "list_index (ht_internal_list self') index = Inr i"
    "r = (if is_filled (ht_internal_list self' ! i)
          then entry_value (ht_internal_list self' ! i) else None)"
proof (cases "lookup_key secret k True self")
  case None
  then show ?thesis using assms by (simp add: get_def)
next
  case (Some x)
  show ?thesis
  proof (cases x)
    case (Inl e)
    then show ?thesis using assms Some by (simp add: get_def)
  next
    case (Inr p)
    obtain index self2 where p: "p = (index, self2)" by (cases p)
    show ?thesis
    proof (cases "list_index (ht_internal_list self2) index")
      case (Inl e)
      then show ?thesis using assms Some Inr p by (simp add: get_def)
    next
      case i: (Inr i)
      have "self' = self2" using assms Some Inr p i by (simp add: get_def split: if_splits)
      then show ?thesis using assms Some Inr p i that[of index i] by (simp add: get_def split: if_splits)
    qed
  qed
qed

lemma get_fields:
  assumes "get secret k self = Some (Inr (r, self'))"
  shows "ht_size self' = ht_size self" "ht_used self' = ht_used self"
    "ht_update_used self' = ht_update_used self" "ht_internal_list self' = ht_internal_list self"
    "ht_hash_key self' = ht_hash_key self" "ht_probe self' = ht_probe self"
proof -
  obtain index where "lookup_key secret k True self = Some (Inr (index, self'))"
    using assms by (rule get_InrE)
  then show "ht_size self' = ht_size self" "ht_used self' = ht_used self"
    "ht_update_used self' = ht_update_used self" "ht_internal_list self' = ht_internal_list self"
    "ht_hash_key self' = ht_hash_key self" "ht_probe self' = ht_probe self"
    by (rule lookup_key_fields)+
qed

lemma remove_InrE:
  assumes "remove secret k self = Some (Inr self')"
  obtains index self2 i where
    "lookup_key secret k True self = Some (Inr (index, self2))"
    "list_index (ht_internal_list self2) index = Inr i"
    "self' = (if is_filled (ht_internal_list self2 ! i)
              then self2\<lparr>ht_internal_list :=
                     (ht_internal_list self2)[i := set_dummy (ht_internal_list self2 ! i)]\<rparr>
              else self2)"
proof (cases "lookup_key secret k True self")
  case None
  then show ?thesis using assms by (simp add: remove_def)
next
  case (Some x)
  show ?thesis
  proof (cases x)
    case (Inl e)
    then show ?thesis using assms Some by (simp add: remove_def)
  next
    case (Inr p)
    obtain index self2 where p: "p = (index, self2)" by (cases p)
    show ?thesis
    proof (cases "list_index (ht_internal_list self2) index")
      case (Inl e)
      then show ?thesis using assms Some Inr p by (simp add: remove_def)
    next
      case i: (Inr i)
      show ?thesis using assms Some Inr p i that[of index self2 i]
        by (simp add: remove_def split: if_splits)
    qed
  qed
qed

lemma remove_fields:
  assumes "remove secret k self = Some (Inr self')"
  shows "ht_size self' = ht_size self" "ht_used self' = ht_used self"
    "ht_update_used self' = ht_update_used self"
    "ht_hash_key self' = ht_hash_key self" "ht_probe self' = ht_probe self"
proof -
  from assms obtain index self2 i where
    l: "lookup_key secret k True self = Some (Inr (index, self2))" and
    s': "self' = (if is_filled (ht_internal_list self2 ! i)
              then self2\<lparr>ht_internal_list :=
                     (ht_internal_list self2)[i := set_dummy (ht_internal_list self2 ! i)]\<rparr>
              else self2)"
    by (rule remove_InrE)
  show "ht_size self' = ht_size self" "ht_used self' = ht_used self"
    "ht_update_used self' = ht_update_used self"
    "ht_hash_key self' = ht_hash_key self" "ht_probe self' = ht_probe self"
    using lookup_key_fields[OF l] by (simp_all add: s')
qed

text \<open>
  C9.  A value of \<open>collision_resolution\<close> other than \<open>'simple'\<close>, \<open>'modified'\<close> and
  \<open>'pythonic'\<close> makes the constructor raise \<open>AssertionError\<close>, so that no table is returned;
  each of the three values yields a table bound to the matching probing method, and
  \<open>update\<close>, \<open>remove\<close> and \<open>get\<close> leave that binding as it is.
\<close>

theorem HashTable_collision_resolution:
  "(cr \<notin> {''simple'', ''modified'', ''pythonic''} \<longrightarrow> HashTable hk cr = Inl AssertionError) \<and>
   (cr \<in> {''simple'', ''modified'', ''pythonic''} \<longrightarrow>
      (\<exists>self. HashTable hk cr = Inr self \<and>
         ht_probe self =
           (if cr = ''simple'' then simple_linear_probing
            else if cr = ''modified'' then modified_linear_probing
            else pythonic_linear_probing))) \<and>
   (update secret k v self = Some (Inr self') \<longrightarrow> ht_probe self' = ht_probe self) \<and>
   (remove secret k self = Some (Inr self') \<longrightarrow> ht_probe self' = ht_probe self) \<and>
   (get secret k self = Some (Inr (r, self')) \<longrightarrow> ht_probe self' = ht_probe self)"
proof (intro conjI impI)
  assume "cr \<notin> {''simple'', ''modified'', ''pythonic''}"
  then show "HashTable hk cr = Inl AssertionError" by (simp add: HashTable_def)
next
  assume "cr \<in> {''simple'', ''modified'', ''pythonic''}"
  then show "\<exists>self. HashTable hk cr = Inr self \<and>
         ht_probe self =
           (if cr = ''simple'' then simple_linear_probing
            else if cr = ''modified'' then modified_linear_probing
            else pythonic_linear_probing)"
    by (auto simp: HashTable_def)
next
  assume "update secret k v self = Some (Inr self')"
  then show "ht_probe self' = ht_probe self" unfolding update_def by (simp add: run_probe)
next
  assume "remove secret k self = Some (Inr self')"
  then show "ht_probe self' = ht_probe self" by (rule remove_fields)
next
  assume "get secret k self = Some (Inr (r, self'))"
  then show "ht_probe self' = ht_probe self" by (rule get_fields)
qed

lemma returned_result: "returned r \<Longrightarrow> r = Some (Inr (result r))"
  by (auto simp: returned_def result_def split: option.splits sum.splits)

theorem HashTable_collision_resolution_witness:
  "HashTable None ''quadratic'' = Inl AssertionError \<and>
   (\<exists>self. HashTable None ''modified'' = Inr self \<and> ht_probe self = modified_linear_probing) \<and>
   (\<exists>self self1 self2 self3 r.
      HashTable None ''modified'' = Inr self \<and>
      update 0 (Some (PyInt 1)) (Some (PyInt 1)) self = Some (Inr self1) \<and>
      ht_probe self1 = modified_linear_probing \<and>
      remove 0 (Some (PyInt 1)) self1 = Some (Inr self2) \<and>
      ht_probe self2 = modified_linear_probing \<and>
      get 0 (Some (PyInt 1)) self2 = Some (Inr (r, self3)) \<and>
      ht_probe self3 = modified_linear_probing)"
proof -
  note T = HashTable_collision_resolution
  let ?t0 = "projr (HashTable None ''modified'')"
  let ?t1 = "result (update 0 (Some (PyInt 1)) (Some (PyInt 1)) ?t0)"
  let ?t2 = "result (remove 0 (Some (PyInt 1)) ?t1)"
  let ?g = "result (get 0 (Some (PyInt 1)) ?t2)"
  have a: "''quadratic'' \<notin> {''simple'', ''modified'', ''pythonic''}" by simp
  have b: "''modified'' \<in> {''simple'', ''modified'', ''pythonic''}" by simp
  have c1: "HashTable None ''quadratic'' = Inl AssertionError"
    using T[where cr = "''quadratic''" and hk = None, THEN conjunct1] a by simp
  have "\<exists>self. HashTable None ''modified'' = Inr self \<and> ht_probe self = modified_linear_probing"
    using T[where cr = "''modified''" and hk = None, THEN conjunct2, THEN conjunct1] b by simp
  then have t0: "HashTable None ''modified'' = Inr ?t0" and p0: "ht_probe ?t0 = modified_linear_probing"
    by auto
  have "returned (update 0 (Some (PyInt 1)) (Some (PyInt 1)) ?t0)"
    by code_simp
  then have u: "update 0 (Some (PyInt 1)) (Some (PyInt 1)) ?t0 = Some (Inr ?t1)"
    by (rule returned_result)
  have "returned (remove 0 (Some (PyInt 1)) ?t1)"
    by code_simp
  then have r: "remove 0 (Some (PyInt 1)) ?t1 = Some (Inr ?t2)"
    by (rule returned_result)
  have "returned (get 0 (Some (PyInt 1)) ?t2)"
    by code_simp
  then have "get 0 (Some (PyInt 1)) ?t2 = Some (Inr ?g)"
    by (rule returned_result)
  then have g: "get 0 (Some (PyInt 1)) ?t2 = Some (Inr (fst ?g, snd ?g))" by simp
  have p1: "ht_probe ?t1 = modified_linear_probing"
    using T[THEN conjunct2, THEN conjunct2, THEN conjunct1, rule_format, OF u] p0 by simp
  have p2: "ht_probe ?t2 = modified_linear_probing"
    using T[THEN conjunct2, THEN conjunct2, THEN conjunct2, THEN conjunct1, rule_format, OF r] p1 by simp
  have p3: "ht_probe (snd ?g) = modified_linear_probing"
    using T[THEN conjunct2, THEN conjunct2, THEN conjunct2, THEN conjunct2, rule_format, OF g] p2 by simp
  show ?thesis
    apply (intro conjI exI)
            apply (rule c1)
           apply (rule t0)
          apply (rule p0)
         apply (rule t0)
        apply (rule u)
       apply (rule p1)
      apply (rule r)
     apply (rule p2)
    apply (rule g)
    apply (rule p3)
    done
qed

subsection \<open>The length tag\<close>

lemma length_bin_digits: "length (bin_digits n acc) = bit_length n + length acc"
proof (induction n acc rule: bin_digits.induct)
  case (1 n acc)
  show ?case
  proof (cases "n < 2")
    case True
    then show ?thesis by (simp add: bin_digits.simps[of n] bit_length.simps[of n])
  next
    case False
    then show ?thesis using 1 by (simp add: bin_digits.simps[of n] bit_length.simps[of n])
  qed
qed

lemma length_bin: "0 \<le> m \<Longrightarrow> int (length (bin m)) - 2 = int (bit_length (nat m))"
  by (simp add: bin_def length_bin_digits)

lemma bit_length_pos: "0 < bit_length n"
  by (subst bit_length.simps) simp

lemma less_exp_bit_length: "n < 2 ^ bit_length n"
proof (induction n rule: bit_length.induct)
  case (1 n)
  show ?case
  proof (cases "n < 2")
    case True
    then show ?thesis by (simp add: bit_length.simps[of n])
  next
    case False
    then have "n div 2 < 2 ^ bit_length (n div 2)" using 1 by simp
    then have "n < 2 * 2 ^ bit_length (n div 2)" by linarith
    then show ?thesis using False by (simp add: bit_length.simps[of n])
  qed
qed

lemma exp_bit_length_le: "0 < n \<Longrightarrow> 2 ^ (bit_length n - 1) \<le> n"
proof (induction n rule: bit_length.induct)
  case (1 n)
  show ?case
  proof (cases "n < 2")
    case True
    then show ?thesis using 1(2) by (simp add: bit_length.simps[of n])
  next
    case False
    then have "2 ^ (bit_length (n div 2) - 1) \<le> n div 2" using 1 by simp
    then have "2 * 2 ^ (bit_length (n div 2) - 1) \<le> n" by linarith
    moreover have "bit_length n - 1 = Suc (bit_length (n div 2) - 1)"
      using False bit_length_pos[of "n div 2"] by (simp add: bit_length.simps[of n])
    ultimately show ?thesis by simp
  qed
qed

lemma and_push_bit_eq_0:
  fixes m x :: int
  assumes "0 \<le> m" "m < 2 ^ k"
  shows "m AND push_bit k x = 0"
proof (rule bit_eqI)
  fix n
  have "take_bit k m = m" using assms by (simp add: take_bit_int_eq_self)
  then have "bit m n \<longleftrightarrow> n < k \<and> bit m n" by (metis bit_take_bit_iff)
  then show "bit (m AND push_bit k x) n \<longleftrightarrow> bit (0::int) n"
    by (auto simp: bit_and_iff bit_push_bit_iff)
qed

lemma add_size_byte_eq:
  assumes "0 \<le> m"
  shows "add_size_byte m =
           m OR push_bit (64 * (((bit_length (nat m) + 7) div 8 + 8) div 8) - 8)
                  (int (((bit_length (nat m) + 7) div 8) mod 256))"
proof -
  define b where "b = bit_length (nat m)"
  have sb: "int (length (bin m)) - 2 = int b" using assms by (simp add: length_bin b_def)
  have bytes: "drop_bit 3 (int b + 7) = int ((b + 7) div 8)"
    by (simp add: drop_bit_eq_div zdiv_int)
  have words: "drop_bit 3 (int ((b + 7) div 8) + 8) = int (((b + 7) div 8 + 8) div 8)"
    by (simp add: drop_bit_eq_div zdiv_int)
  have low: "int ((b + 7) div 8) AND 255 = int (((b + 7) div 8) mod 256)"
  proof -
    have "int ((b + 7) div 8) AND 255 = take_bit 8 (int ((b + 7) div 8))"
      by (simp add: take_bit_eq_mask mask_eq_exp_minus_1)
    then show ?thesis by (simp add: take_bit_eq_mod zmod_int)
  qed
  have sh: "nat (push_bit 6 (int (((b + 7) div 8 + 8) div 8)) - 8) = 64 * (((b + 7) div 8 + 8) div 8) - 8"
    by (simp add: push_bit_eq_mult nat_diff_distrib' nat_mult_distrib)
  show ?thesis
    unfolding add_size_byte_def Let_def sb bytes words low sh by (simp add: b_def)
qed

text \<open>
  C8, as the code has it.  For a message \<open>m \<ge> 0\<close> with byte length \<open>L'\<close> (the bit length
  rounded up to bytes, one bit for 0), \<open>W = (L' + 8) >> 3\<close> words and \<open>L = L' mod 256\<close>, the
  tagged message is \<open>m | (L << (64 * W - 8))\<close>: the tag sits in the top byte of the \<open>W\<close>-th
  64-bit word, above every bit of the message, so the two never overlap.
\<close>

theorem add_size_byte_tag:
  assumes "0 \<le> m"
  shows "let L' = (bit_length (nat m) + 7) div 8; W = (L' + 8) div 8; L = L' mod 256 in
           add_size_byte m = m OR push_bit (64 * W - 8) (int L) \<and>
           m < 2 ^ (64 * W - 8) \<and>
           m AND push_bit (64 * W - 8) (int L) = 0 \<and>
           push_bit (64 * W - 8) (int L) < 2 ^ (64 * W)"
proof -
  define L' where "L' = (bit_length (nat m) + 7) div 8"
  define W where "W = (L' + 8) div 8"
  define L where "L = L' mod 256"
  have eq: "add_size_byte m = m OR push_bit (64 * W - 8) (int L)"
    using add_size_byte_eq[OF assms] by (simp add: L'_def W_def L_def)
  have "bit_length (nat m) \<le> 8 * L'" unfolding L'_def by simp
  moreover have "8 * L' \<le> 64 * W - 8" unfolding W_def by simp
  ultimately have le: "bit_length (nat m) \<le> 64 * W - 8" by linarith
  have "nat m < 2 ^ bit_length (nat m)" by (rule less_exp_bit_length)
  also have "\<dots> \<le> 2 ^ (64 * W - 8)" using le by (rule power_increasing) simp
  finally have "int (nat m) < 2 ^ (64 * W - 8)"
    by (metis of_nat_less_iff of_nat_numeral of_nat_power)
  then have lt: "m < 2 ^ (64 * W - 8)" using assms by simp
  have disj: "m AND push_bit (64 * W - 8) (int L) = 0"
    using assms lt by (rule and_push_bit_eq_0)
  have W1: "1 \<le> W" unfolding W_def by simp
  have "int L < 2 ^ 8" unfolding L_def by simp
  then have "push_bit (64 * W - 8) (int L) < push_bit (64 * W - 8) (2 ^ 8)"
    by (simp add: push_bit_eq_mult)
  also have "\<dots> = 2 ^ (64 * W)"
  proof -
    have "(64 * W - 8) + 8 = 64 * W" using W1 by simp
    then have "(2::int) ^ (64 * W) = 2 ^ (64 * W - 8) * 2 ^ 8" by (metis power_add)
    then show ?thesis by (simp add: push_bit_eq_mult)
  qed
  finally have top: "push_bit (64 * W - 8) (int L) < 2 ^ (64 * W)" .
  show ?thesis
    using eq lt disj top by (simp add: Let_def L'_def W_def L_def)
qed

theorem add_size_byte_tag_witness:
  "(0::int) \<le> 1 \<and> add_size_byte 1 = 1 OR push_bit 56 1 \<and> (1::int) AND push_bit 56 1 = 0"
proof -
  have b: "bit_length (Suc 0) = 1" by (simp add: bit_length.simps)
  show ?thesis
    using add_size_byte_tag[of 1] by (simp add: b Let_def)
qed

theorem add_size_byte_claimed_counterexample:
  "add_size_byte 1 \<noteq> claimed_add_size_byte 1"
proof -
  have b: "bit_length (Suc 0) = 1" by (simp add: bit_length.simps)
  have "add_size_byte 1 = 72057594037927937" by code_simp
  moreover have "claimed_add_size_byte 1 = 1" by (simp add: claimed_add_size_byte_def b Let_def)
  ultimately show ?thesis by simp
qed

subsection \<open>Termination of hashing\<close>

lemma compression_loop_negative:
  assumes "upper < 0"
  shows "compression_loop upper self = None"
proof (rule ccontr)
  assume "compression_loop upper self \<noteq> None"
  then obtain y where y: "compression_loop upper self = Some y" by auto
  have "0 \<le> upper"
    using y
  proof (rule compression_loop.raw_induct [rotated 1, where P = "\<lambda>upper self y. 0 \<le> upper"], goal_cases)
    case (1 f upper self y)
    show ?case
    proof (cases "upper = 0")
      case True
      then show ?thesis by simp
    next
      case False
      then have "f (drop_bit 64 upper) (compress_word (upper AND (push_bit 64 1 - 1)) self) = Some y"
        using 1(2) by (simp add: split_lower_upper_words_def Let_def)
      then have "0 \<le> drop_bit 64 upper" by (rule 1(1))
      then show ?thesis by simp
    qed
  qed
  with assms show False by simp
qed

lemma compression_loop_terminates:
  assumes "0 \<le> upper"
  shows "\<exists>y. compression_loop upper self = Some y"
  using assms
proof (induction "nat upper" arbitrary: upper self rule: less_induct)
  case less
  show ?case
  proof (cases "upper = 0")
    case True
    then show ?thesis by (subst compression_loop.simps) simp
  next
    case False
    then have pos: "0 < upper" using less.prems by simp
    have "drop_bit 64 upper < upper"
      using pos by (simp add: drop_bit_eq_div)
    moreover have "0 \<le> drop_bit 64 upper" using pos by simp
    ultimately have "\<exists>y. compression_loop (drop_bit 64 upper)
                        (compress_word (upper AND (push_bit 64 1 - 1)) self) = Some y"
      using less.hyps[of "drop_bit 64 upper"] by simp
    then show ?thesis
      using False by (subst compression_loop.simps) (simp add: split_lower_upper_words_def Let_def)
  qed
qed

lemma add_size_byte_negative: "m < 0 \<Longrightarrow> add_size_byte m < 0"
  by (simp add: add_size_byte_def Let_def)

lemma add_size_byte_nonnegative: "0 \<le> m \<Longrightarrow> 0 \<le> add_size_byte m"
  using add_size_byte_eq[of m] by simp

lemma compression_negative: "m < 0 \<Longrightarrow> compression m self = None"
  using add_size_byte_negative[of m]
  by (simp add: compression_def Let_def split_lower_upper_words_def compression_loop_negative)

lemma compression_terminates: "0 \<le> m \<Longrightarrow> \<exists>y. compression m self = Some y"
  using add_size_byte_nonnegative[of m]
  by (simp add: compression_def Let_def split_lower_upper_words_def compression_loop_terminates)

lemma siphash_main_negative: "m < 0 \<Longrightarrow> siphash_main m self = None"
  by (simp add: siphash_main_def compression_negative)

lemma siphash_main_terminates: "0 \<le> m \<Longrightarrow> \<exists>y. siphash_main m self = Some y"
  using compression_terminates[of m self] by (auto simp: siphash_main_def Let_def)

lemma str2int_loop_nonnegative: "0 \<le> acc \<Longrightarrow> 0 \<le> str2int_loop i s acc"
  by (induction s arbitrary: i acc) simp_all

lemma str2int_nonnegative: "0 \<le> str2int s"
  by (simp add: str2int_def str2int_loop_nonnegative)

lemma get_hash_negative: "n < 0 \<Longrightarrow> get_hash (PyInt n) self = None"
  by (simp add: get_hash_def siphash_main_negative)

text \<open>
  Where hashing returns: for every string, every non-negative integer and every other object.
  A string is hashed as the integer \<open>str2int\<close> packs it into, and a non-negative integer \<open>n\<close>
  as the message \<open>n\<close> itself, which is also the message of an object whose identity is \<open>n\<close>.
\<close>

lemma get_hash_returns:
  "(\<exists>r. get_hash (PyStr s) self = Some r) \<and>
   (\<exists>r. get_hash (PyObj ident) self = Some r) \<and>
   (0 \<le> n \<longrightarrow> (\<exists>r. get_hash (PyInt n) self = Some r)) \<and>
   get_hash (PyStr s) self = get_hash (PyInt (str2int s)) self \<and>
   (0 \<le> n \<longrightarrow> get_hash (PyInt n) self = get_hash (PyObj (nat n)) self)"
proof (intro conjI impI)
  show "\<exists>r. get_hash (PyStr s) self = Some r"
    using siphash_main_terminates[OF str2int_nonnegative, of s "reset self"]
    by (auto simp: get_hash_def)
  show "\<exists>r. get_hash (PyObj ident) self = Some r"
    using siphash_main_terminates[of "int ident" "reset self"] by (auto simp: get_hash_def)
  show "\<exists>r. get_hash (PyInt n) self = Some r" if "0 \<le> n"
    using siphash_main_terminates[OF that, of "reset self"] by (auto simp: get_hash_def)
  show "get_hash (PyStr s) self = get_hash (PyInt (str2int s)) self"
    by (simp add: get_hash_def)
  show "get_hash (PyInt n) self = get_hash (PyObj (nat n)) self" if "0 \<le> n"
    using that by (simp add: get_hash_def)
qed

text \<open>
  C7 at a negative integer.  \<open>get_hash\<close> passes an integer on as it is, without taking its
  magnitude.  For the message \<open>-1\<close> the length tag leaves the message negative, so
  \<open>upper = msg >> 64\<close> stays \<open>-1\<close> and the loop \<open>while upper\<close> of \<open>__compression\<close> never
  ends: with the secret key 0, \<open>get_hash(-1)\<close> does not return, while \<open>get_hash(1)\<close> returns
  \<open>7385293435322750976\<close>.  The same holds for every negative integer and every key
  (lemma \<open>get_hash_negative\<close>).
\<close>

theorem get_hash_negative_integer_never_returns:
  "get_hash (PyInt (- 1)) (SipHash 0 True) = None \<and>
   map_option fst (get_hash (PyInt 1) (SipHash 0 True)) = Some 7385293435322750976"
proof -
  have a: "get_hash (PyInt (- 1)) (SipHash 0 True) = None" by (rule get_hash_negative) simp
  have b: "map_option fst (get_hash (PyInt 1) (SipHash 0 True)) = Some 7385293435322750976"
    by code_simp
  from a b show ?thesis by (rule conjI)
qed

subsection \<open>Invariants\<close>

lemma needs_resize_iff: "0 < ht_size self \<Longrightarrow> needs_resize self \<longleftrightarrow> ht_size self < ht_used self + 1"
proof -
  assume pos: "0 < ht_size self"
  have "needs_resize self \<longleftrightarrow> rat_of_int (ht_size self) < rat_of_int (ht_used self + 1)"
    using pos unfolding needs_resize_def load_factor_def by (simp add: pos_less_divide_eq del: of_int_add)
  also have "\<dots> \<longleftrightarrow> ht_size self < ht_used self + 1" by (simp only: of_int_less_iff)
  finally show ?thesis .
qed

lemma list_index_less: "list_index xs index = Inr i \<Longrightarrow> i < length xs"
  by (auto simp: list_index_def Let_def split: if_splits)

lemma list_index_nonneg:
  "0 \<le> index \<Longrightarrow> list_index xs index = Inr i \<Longrightarrow> index = int i"
  by (auto simp: list_index_def Let_def split: if_splits)

lemma list_index_nat: "i < length xs \<Longrightarrow> list_index xs (int i) = Inr i"
  by (simp add: list_index_def)

lemma length_filter_update_le:
  "i < length xs \<Longrightarrow>
   length (filter P (xs[i := y])) \<le> length (filter P xs) + (if P (xs ! i) then 0 else 1)"
proof (induction xs arbitrary: i)
  case Nil
  then show ?case by simp
next
  case (Cons x xs)
  show ?case
  proof (cases i)
    case 0
    then show ?thesis by simp
  next
    case (Suc j)
    then have "j < length xs" using Cons.prems by simp
    from Cons.IH[OF this] show ?thesis using Suc by (cases "P (xs ! j)") simp_all
  qed
qed

lemma count_nonempty_update_le:
  assumes "i < length es"
  shows "count_nonempty (es[i := new]) \<le> count_nonempty es + (if is_empty (es ! i) then 1 else 0)"
  using length_filter_update_le[OF assms, of "\<lambda>e. \<not> is_empty e" new]
  by (cases "is_empty (es ! i)") (simp_all add: count_nonempty_def)

lemma lookup_key_Inr_key:
  assumes "lookup_key secret k skip_dummy self = Some (Inr r)"
  obtains kk hv where "k = Some kk" "entry_get_hash secret kk = Some hv"
    "HashTableEntry secret k v =
       Some \<lparr>entry_key = k, entry_value = v, entry_hash_value = Some hv, entry_dummy = False\<rparr>"
proof (cases k)
  case None
  then show ?thesis using assms by (simp add: lookup_key_def HashTableEntry_def)
next
  case (Some kk)
  show ?thesis
  proof (cases "entry_get_hash secret kk")
    case None
    then show ?thesis using assms Some by (simp add: lookup_key_def HashTableEntry_def)
  next
    case hv: (Some hv)
    show ?thesis using that[of kk hv] Some hv by (simp add: HashTableEntry_def)
  qed
qed

lemma insert_at_cases:
  assumes "insert_at secret k v self = Some (Inr self')"
  obtains index self2 i kk hv where
    "lookup_key secret k False self = Some (Inr (index, self2))"
    "list_index (ht_internal_list self) index = Inr i"
    "i < length (ht_internal_list self)"
    "k = Some kk" "entry_get_hash secret kk = Some hv"
    "self' = place self2 i \<lparr>entry_key = k, entry_value = v, entry_hash_value = Some hv,
                             entry_dummy = False\<rparr>"
proof -
  from assms obtain index self2 i new where
    l: "lookup_key secret k False self = Some (Inr (index, self2))" and
    i: "list_index (ht_internal_list self2) index = Inr i" and
    n: "HashTableEntry secret k v = Some new" and
    s: "self' = place self2 i new"
    by (rule insert_at_InrE)
  from l obtain kk hv where k: "k = Some kk" "entry_get_hash secret kk = Some hv"
    "HashTableEntry secret k v =
       Some \<lparr>entry_key = k, entry_value = v, entry_hash_value = Some hv, entry_dummy = False\<rparr>"
    by (rule lookup_key_Inr_key)
  have il: "ht_internal_list self2 = ht_internal_list self" using l by (rule lookup_key_fields)
  show ?thesis
    using that[of index self2 i kk hv] l i k n s list_index_less[OF i] by (simp add: il)
qed

lemma insert_at_fields:
  assumes "insert_at secret k v self = Some (Inr self')"
  obtains i new where
    "i < length (ht_internal_list self)"
    "ht_internal_list self' = (ht_internal_list self)[i := new]"
    "is_filled new" "entry_ok secret new" "entry_key new = k" "entry_value new = v"
    "ht_size self' = ht_size self" "ht_update_used self' = ht_update_used self"
    "ht_used self' = ht_used self +
       (if \<not> is_dummy (ht_internal_list self ! i) \<and> ht_update_used self then 1 else 0)"
proof -
  from assms obtain index self2 i kk hv where
    l: "lookup_key secret k False self = Some (Inr (index, self2))" and
    i: "i < length (ht_internal_list self)" and
    k: "k = Some kk" "entry_get_hash secret kk = Some hv" and
    s: "self' = place self2 i \<lparr>entry_key = k, entry_value = v, entry_hash_value = Some hv,
                             entry_dummy = False\<rparr>"
    by (rule insert_at_cases)
  note f = lookup_key_fields[OF l]
  let ?new = "\<lparr>entry_key = k, entry_value = v, entry_hash_value = Some hv, entry_dummy = False\<rparr>"
  show ?thesis
  proof (rule that[of i ?new])
    show "i < length (ht_internal_list self)" by (rule i)
    show "ht_internal_list self' = (ht_internal_list self)[i := ?new]" by (simp add: s place_def f)
    show "is_filled ?new" by (simp add: is_filled_def entry_state_def)
    show "entry_ok secret ?new" by (simp add: entry_ok_def k)
    show "entry_key ?new = k" "entry_value ?new = v" by simp_all
    show "ht_size self' = ht_size self" "ht_update_used self' = ht_update_used self"
      by (simp_all add: s place_def f)
    show "ht_used self' = ht_used self +
       (if \<not> is_dummy (ht_internal_list self ! i) \<and> ht_update_used self then 1 else 0)"
      by (simp add: s place_def f)
  qed
qed

lemma table_ok_update:
  assumes "table_ok secret self" "i < length (ht_internal_list self)" "entry_ok secret new"
    "ht_internal_list self' = (ht_internal_list self)[i := new]" "ht_size self' = ht_size self"
  shows "table_ok secret self'"
proof -
  have "\<forall>e \<in> set (ht_internal_list self'). entry_ok secret e"
  proof
    fix e assume "e \<in> set (ht_internal_list self')"
    then have "e \<in> insert new (set (ht_internal_list self))"
      using set_update_subset_insert[of "ht_internal_list self" i new] assms(4) by auto
    then show "entry_ok secret e" using assms(1,3) by (auto simp: table_ok_def)
  qed
  then show ?thesis using assms(1,4,5) by (simp add: table_ok_def)
qed

lemma is_filled_not_empty: "is_filled e \<Longrightarrow> \<not> is_empty e"
  by (simp add: is_filled_def is_empty_def)

lemma is_empty_not_dummy: "is_empty e \<Longrightarrow> \<not> is_dummy e"
  by (simp add: is_dummy_def is_empty_def)

lemma length_items: "length (items self) = length (filter is_filled (ht_internal_list self))"
  by (simp add: items_def get_items_def Let_def)

lemma length_items_le: "length (items self) \<le> count_nonempty (ht_internal_list self)"
proof -
  have "length (filter is_filled es) \<le> length (filter (\<lambda>e. \<not> is_empty e) es)" for es
    by (induction es) (auto simp: is_filled_not_empty)
  then show ?thesis by (simp add: length_items count_nonempty_def)
qed

lemma table_size_pos: "table_ok secret self \<Longrightarrow> 0 < ht_size self"
  by (auto simp: table_ok_def)

lemma table_ok_prepare_resize:
  assumes "table_ok secret self"
  shows "table_ok secret (prepare_resize self)"
proof -
  obtain m where m: "ht_size self = 2 ^ m" using assms by (auto simp: table_ok_def)
  have "push_bit 1 (ht_size self) = 2 ^ Suc m" by (simp add: m push_bit_eq_mult)
  moreover have "int (length (init_internal_list (push_bit 1 (ht_size self)))) = push_bit 1 (ht_size self)"
    by (simp add: init_internal_list_def m push_bit_eq_mult)
  moreover have "\<forall>e \<in> set (init_internal_list sz). entry_ok secret e" for sz
    by (simp add: init_internal_list_def entry_ok_def)
  ultimately show ?thesis unfolding table_ok_def prepare_resize_def
    by (intro conjI exI[of _ "Suc m"]) simp_all
qed

lemma count_nonempty_init: "count_nonempty (init_internal_list sz) = 0"
  by (simp add: count_nonempty_def init_internal_list_def is_empty_def entry_state_def)

lemma insert_at_table_inv:
  assumes inv: "table_ok secret self" "ht_update_used self"
    "int (count_nonempty (ht_internal_list self)) \<le> ht_used self" "ht_used self + 1 \<le> ht_size self"
  assumes ins: "insert_at secret k v self = Some (Inr self')"
  shows "table_inv secret self'"
proof -
  from ins obtain i new where
    i: "i < length (ht_internal_list self)" and
    il: "ht_internal_list self' = (ht_internal_list self)[i := new]" and
    new: "entry_ok secret new" and
    sz: "ht_size self' = ht_size self" and fl: "ht_update_used self' = ht_update_used self" and
    us: "ht_used self' = ht_used self +
       (if \<not> is_dummy (ht_internal_list self ! i) \<and> ht_update_used self then 1 else 0)"
    by (rule insert_at_fields)
  have ok: "table_ok secret self'" using inv(1) i new il sz by (rule table_ok_update)
  have cnt: "count_nonempty (ht_internal_list self') \<le>
      count_nonempty (ht_internal_list self) + (if is_empty (ht_internal_list self ! i) then 1 else 0)"
    unfolding il using i by (rule count_nonempty_update_le)
  have "int (count_nonempty (ht_internal_list self')) \<le> ht_used self'"
    using cnt inv(2,3) us is_empty_not_dummy[of "ht_internal_list self ! i"]
    by (cases "is_empty (ht_internal_list self ! i)") (auto split: if_splits)
  moreover have "ht_used self' \<le> ht_size self'" using us sz inv(4) by (simp split: if_splits)
  ultimately show ?thesis using ok fl inv(2) by (simp add: table_inv_def)
qed

lemma insert_at_replay_inv:
  assumes inv: "replay_inv secret self"
  assumes ins: "insert_at secret k v self = Some (Inr self')"
  shows "replay_inv secret self' \<and> ht_size self' = ht_size self \<and> ht_used self' = ht_used self \<and>
         count_nonempty (ht_internal_list self') \<le> Suc (count_nonempty (ht_internal_list self))"
proof -
  from ins obtain i new where
    i: "i < length (ht_internal_list self)" and
    il: "ht_internal_list self' = (ht_internal_list self)[i := new]" and
    new: "entry_ok secret new" and
    sz: "ht_size self' = ht_size self" and fl: "ht_update_used self' = ht_update_used self" and
    us: "ht_used self' = ht_used self +
       (if \<not> is_dummy (ht_internal_list self ! i) \<and> ht_update_used self then 1 else 0)"
    by (rule insert_at_fields)
  have ok: "table_ok secret self'" using inv i new il sz by (auto simp: replay_inv_def intro: table_ok_update)
  have cnt: "count_nonempty (ht_internal_list self') \<le>
      count_nonempty (ht_internal_list self) + (if is_empty (ht_internal_list self ! i) then 1 else 0)"
    unfolding il using i by (rule count_nonempty_update_le)
  show ?thesis using ok cnt sz fl us inv by (auto simp: replay_inv_def split: if_splits)
qed

lemma run_inv:
  assumes "run secret c self = Some (Inr self')"
  shows "case c of
           Update k v \<Rightarrow>
             (table_inv secret self \<longrightarrow> table_inv secret self') \<and>
             (replay_inv secret self \<longrightarrow>
                replay_inv secret self' \<and> ht_size self' = ht_size self \<and>
                ht_used self' = ht_used self \<and>
                count_nonempty (ht_internal_list self') \<le> Suc (count_nonempty (ht_internal_list self)))
         | IncrementSize \<Rightarrow>
             (table_ok secret self \<and> ht_used self \<le> ht_size self \<longrightarrow>
                table_ok secret self' \<and> ht_update_used self' \<and> ht_size self' = 2 * ht_size self \<and>
                ht_used self' = ht_used self \<and>
                count_nonempty (ht_internal_list self') \<le> length (items self))
         | ForItems its \<Rightarrow>
             (replay_inv secret self \<longrightarrow>
                replay_inv secret self' \<and> ht_size self' = ht_size self \<and>
                ht_used self' = ht_used self \<and>
                count_nonempty (ht_internal_list self') \<le> count_nonempty (ht_internal_list self) + length its)"
  using assms
proof (induction rule: run_induct)
  case (Update k v self self1 self')
  have top: "table_inv secret self'" if inv: "table_inv secret self"
  proof -
    have pos: "0 < ht_size self" using inv by (auto simp: table_inv_def table_size_pos)
    show ?thesis
    proof (cases "needs_resize self")
      case True
      then have g: "table_ok secret self1" "ht_update_used self1" "ht_size self1 = 2 * ht_size self"
        "ht_used self1 = ht_used self" "count_nonempty (ht_internal_list self1) \<le> length (items self)"
        using Update(4) inv by (auto simp: table_inv_def)
      have "int (count_nonempty (ht_internal_list self1)) \<le> ht_used self1"
        using g(4,5) length_items_le[of self] inv by (simp add: table_inv_def)
      moreover have "ht_used self1 + 1 \<le> ht_size self1"
        using g(3,4) inv pos by (simp add: table_inv_def)
      ultimately show ?thesis using g(1,2) Update(3) by (intro insert_at_table_inv[of secret self1])
    next
      case False
      then have s1: "self1 = self" using Update(2) by simp
      have "ht_used self + 1 \<le> ht_size self" using False pos by (simp add: needs_resize_iff)
      then show ?thesis using inv Update(3) unfolding s1 table_inv_def
        by (intro insert_at_table_inv[of secret self, unfolded table_inv_def]) simp_all
    qed
  qed
  have rep: "replay_inv secret self' \<and> ht_size self' = ht_size self \<and> ht_used self' = ht_used self \<and>
      count_nonempty (ht_internal_list self') \<le> Suc (count_nonempty (ht_internal_list self))"
    if inv: "replay_inv secret self"
  proof -
    have pos: "0 < ht_size self" using inv by (auto simp: replay_inv_def table_size_pos)
    have "\<not> needs_resize self" using inv pos by (simp add: needs_resize_iff replay_inv_def)
    then have s1: "self1 = self" using Update(2) by simp
    show ?thesis using insert_at_replay_inv[OF inv] Update(3) unfolding s1 by simp
  qed
  show ?case using top rep by simp
next
  case (IncrementSize self self')
  show ?case
  proof (simp, intro impI)
    assume a: "table_ok secret self \<and> ht_used self \<le> ht_size self"
    then have pos: "0 < ht_size self" by (auto simp: table_size_pos)
    have "replay_inv secret (prepare_resize self)"
      using a pos table_ok_prepare_resize[of secret self]
      by (simp add: replay_inv_def) (simp add: prepare_resize_def push_bit_eq_mult)
    then have r: "replay_inv secret self'" "ht_size self' = ht_size (prepare_resize self)"
      "ht_used self' = ht_used (prepare_resize self)"
      "count_nonempty (ht_internal_list self') \<le>
         count_nonempty (ht_internal_list (prepare_resize self)) + length (items self)"
      using IncrementSize(2) by simp_all
    have "table_ok secret (self'\<lparr>ht_update_used := True\<rparr>)"
      using r(1) by (simp add: replay_inv_def table_ok_def)
    then show "table_ok secret (self'\<lparr>ht_update_used := True\<rparr>) \<and>
      ht_size self' = 2 * ht_size self \<and> ht_used self' = ht_used self \<and>
      count_nonempty (ht_internal_list self') \<le> length (items self)"
      using r(2,3,4) by (simp add: prepare_resize_def push_bit_eq_mult count_nonempty_init)
  qed
next
  case (Nil self)
  show ?case by simp
next
  case (Cons k v rest self self1 self')
  show ?case
  proof (simp, intro impI)
    assume inv: "replay_inv secret self"
    then have 1: "replay_inv secret self1" "ht_size self1 = ht_size self" "ht_used self1 = ht_used self"
      "count_nonempty (ht_internal_list self1) \<le> Suc (count_nonempty (ht_internal_list self))"
      using Cons(3) by simp_all
    then have 2: "replay_inv secret self'" "ht_size self' = ht_size self1" "ht_used self' = ht_used self1"
      "count_nonempty (ht_internal_list self') \<le> count_nonempty (ht_internal_list self1) + length rest"
      using Cons(4) by simp_all
    show "replay_inv secret self' \<and> ht_size self' = ht_size self \<and> ht_used self' = ht_used self \<and>
      count_nonempty (ht_internal_list self') \<le> Suc (count_nonempty (ht_internal_list self) + length rest)"
      using 1 2 by simp
  qed
qed

lemma update_table_inv:
  "table_inv secret self \<Longrightarrow> update secret k v self = Some (Inr self') \<Longrightarrow> table_inv secret self'"
  using run_inv[of secret "Update k v" self self'] by (simp add: update_def)

lemma increment_size_table_inv:
  assumes "table_inv secret self" "increment_size secret self = Some (Inr self')"
  shows "table_inv secret self'" "ht_used self' = ht_used self" "ht_size self' = 2 * ht_size self"
proof -
  have r: "table_ok secret self'" "ht_update_used self'" "ht_size self' = 2 * ht_size self"
    "ht_used self' = ht_used self" "count_nonempty (ht_internal_list self') \<le> length (items self)"
    using run_inv[of secret IncrementSize self self'] assms by (simp_all add: increment_size_def table_inv_def)
  show "ht_used self' = ht_used self" "ht_size self' = 2 * ht_size self" by (rule r)+
  have "0 < ht_size self" using assms(1) by (auto simp: table_inv_def table_size_pos)
  then show "table_inv secret self'"
    using r length_items_le[of self] assms(1) by (simp add: table_inv_def)
qed

lemma remove_table_inv:
  assumes "table_inv secret self" "remove secret k self = Some (Inr self')"
  shows "table_inv secret self'"
proof -
  from assms(2) obtain index self2 i where
    l: "lookup_key secret k True self = Some (Inr (index, self2))" and
    i: "list_index (ht_internal_list self2) index = Inr i" and
    s: "self' = (if is_filled (ht_internal_list self2 ! i)
              then self2\<lparr>ht_internal_list :=
                     (ht_internal_list self2)[i := set_dummy (ht_internal_list self2 ! i)]\<rparr>
              else self2)"
    by (rule remove_InrE)
  note f = lookup_key_fields[OF l]
  have inv2: "table_inv secret self2" using assms(1) f by (simp add: table_inv_def table_ok_def)
  show ?thesis
  proof (cases "is_filled (ht_internal_list self2 ! i)")
    case False
    then show ?thesis using s inv2 by simp
  next
    case True
    let ?es = "ht_internal_list self2"
    have il: "i < length ?es" using i by (rule list_index_less)
    have s': "self' = self2\<lparr>ht_internal_list := ?es[i := set_dummy (?es ! i)]\<rparr>" using s True by simp
    have "entry_ok secret (?es ! i)" using inv2 il by (simp add: table_inv_def table_ok_def)
    then have eo: "entry_ok secret (set_dummy (?es ! i))"
      using True by (auto simp: entry_ok_def set_dummy_def is_filled_def entry_state_def split: option.splits if_splits)
    have ok: "table_ok secret self'"
      using table_ok_update[of secret self2 i "set_dummy (?es ! i)" self'] inv2 il eo
      by (simp add: s' table_inv_def)
    have "count_nonempty (?es[i := set_dummy (?es ! i)]) \<le> count_nonempty ?es"
      using count_nonempty_update_le[OF il, of "set_dummy (?es ! i)"] is_filled_not_empty[OF True] by simp
    then show ?thesis using ok inv2 by (simp add: table_inv_def s')
  qed
qed

lemma get_table_inv:
  assumes "table_inv secret self" "get secret k self = Some (Inr (r, self'))"
  shows "table_inv secret self'"
  using assms(1) get_fields[OF assms(2)] by (simp add: table_inv_def table_ok_def)

lemma HashTable_table_inv:
  assumes "HashTable hash_key cr = Inr self"
  shows "table_inv secret self"
proof -
  have f: "ht_size self = 8" "ht_used self = 0" "ht_update_used self"
    "ht_internal_list self = init_internal_list 8"
    using assms by (auto simp: HashTable_def Let_def split: if_splits)
  have "(8::int) = 2 ^ 3" by simp
  then have "\<exists>m. (8::int) = 2 ^ m" by (rule exI)
  then show ?thesis
    using f by (simp add: table_inv_def table_ok_def count_nonempty_init)
      (simp add: init_internal_list_def entry_ok_def)
qed

lemma reachable_table_inv: "reachable secret self \<Longrightarrow> table_inv secret self"
proof (induction rule: reachable.induct)
  case (fresh hash_key cr self)
  then show ?case by (rule HashTable_table_inv)
next
  case (after_update self k v self')
  from after_update.IH after_update.hyps(2) show ?case by (rule update_table_inv)
next
  case (after_remove self k self')
  from after_remove.IH after_remove.hyps(2) show ?case by (rule remove_table_inv)
next
  case (after_get self k r self')
  from after_get.IH after_get.hyps(2) show ?case by (rule get_table_inv)
next
  case (after_raising_update self self')
  from after_raising_update.IH after_raising_update.hyps(3) show ?case
    by (rule increment_size_table_inv)
qed

lemma in_replay_inv: "in_replay secret self \<Longrightarrow> replay_inv secret self"
proof (induction rule: in_replay.induct)
  case (replay_start self)
  then have inv: "table_inv secret self" by (simp add: reachable_table_inv)
  then have pos: "0 < ht_size self" by (auto simp: table_inv_def table_size_pos)
  show ?case
    using inv pos table_ok_prepare_resize[of secret self]
    by (simp add: replay_inv_def table_inv_def) (simp add: prepare_resize_def push_bit_eq_mult)
next
  case (replay_step self k v self')
  then show ?case using run_inv[of secret "Update k v" self self'] by (simp add: update_def)
qed

lemma run_Update_InrE:
  assumes "run secret (Update k v) self = Some (Inr self')"
  obtains self1 where "ht_size self \<noteq> 0" "grow secret self = Some (Inr self1)"
    "insert_at secret k v self1 = Some (Inr self')"
proof (cases "ht_size self = 0")
  case True
  then show ?thesis using assms by (simp add: run_Update)
next
  case nz: False
  show ?thesis
  proof (cases "needs_resize self")
    case False
    then show ?thesis using assms nz that[of self] by (simp add: run_Update grow_def)
  next
    case True
    show ?thesis
    proof (cases "run secret IncrementSize self")
      case None
      then show ?thesis using assms nz True by (simp add: run_Update)
    next
      case (Some y)
      show ?thesis
      proof (cases y)
        case (Inl e)
        then show ?thesis using assms nz True Some by (simp add: run_Update)
      next
        case (Inr self1)
        then show ?thesis
          using assms nz True Some that[of self1] by (simp add: run_Update grow_def increment_size_def)
      qed
    qed
  qed
qed

lemma grow_fields:
  assumes "table_inv secret self \<or> replay_inv secret self" "grow secret self = Some (Inr self1)"
  shows "ht_used self1 = ht_used self" "ht_update_used self1 = ht_update_used self"
proof -
  have "ht_used self1 = ht_used self \<and> ht_update_used self1 = ht_update_used self"
  proof (cases "needs_resize self")
    case False
    then show ?thesis using assms(2) by (simp add: grow_def)
  next
    case True
    have pos: "0 < ht_size self" using assms(1) by (auto simp: table_inv_def replay_inv_def table_size_pos)
    then have "\<not> replay_inv secret self" using True by (simp add: needs_resize_iff replay_inv_def)
    then have inv: "table_inv secret self" using assms(1) by simp
    have "increment_size secret self = Some (Inr self1)" using True assms(2) by (simp add: grow_def)
    then show ?thesis
      using run_inv[of secret IncrementSize self self1] inv
      by (simp add: increment_size_def table_inv_def)
  qed
  then show "ht_used self1 = ht_used self" "ht_update_used self1 = ht_update_used self" by simp_all
qed

text \<open>
  C3.  On every table reached from a new one by calls of \<open>get\<close>, \<open>update\<close> and \<open>remove\<close>,
  the table a call of \<open>update\<close> returns satisfies \<open>used / size \<le> load_factor\<close>.
\<close>

theorem load_factor_after_update:
  assumes "reachable secret self" "update secret k v self = Some (Inr self')"
  shows "rat_of_int (ht_used self') / rat_of_int (ht_size self') \<le> load_factor"
proof -
  have "table_inv secret self'"
    using reachable_table_inv[OF assms(1)] assms(2) by (rule update_table_inv)
  then have "ht_used self' \<le> ht_size self'" "0 < ht_size self'"
    by (auto simp: table_inv_def table_size_pos)
  then show ?thesis by (simp add: load_factor_def divide_le_eq_1_pos)
qed

theorem load_factor_after_update_witness:
  "reachable 0 (projr (HashTable None ''simple'')) \<and>
   update 0 (Some (PyInt 1)) (Some (PyInt 1)) (projr (HashTable None ''simple'')) =
     Some (Inr (result (update 0 (Some (PyInt 1)) (Some (PyInt 1)) (projr (HashTable None ''simple''))))) \<and>
   rat_of_int (ht_used (result (update 0 (Some (PyInt 1)) (Some (PyInt 1)) (projr (HashTable None ''simple''))))) /
   rat_of_int (ht_size (result (update 0 (Some (PyInt 1)) (Some (PyInt 1)) (projr (HashTable None ''simple'')))))
     \<le> load_factor"
proof -
  let ?t0 = "projr (HashTable None ''simple'')"
  let ?t1 = "result (update 0 (Some (PyInt 1)) (Some (PyInt 1)) ?t0)"
  have "HashTable None ''simple'' = Inr ?t0" by (simp add: HashTable_def)
  then have r: "reachable 0 ?t0" by (rule reachable.fresh)
  have "returned (update 0 (Some (PyInt 1)) (Some (PyInt 1)) ?t0)" by code_simp
  then have u: "update 0 (Some (PyInt 1)) (Some (PyInt 1)) ?t0 = Some (Inr ?t1)"
    by (rule returned_result)
  from load_factor_after_update[OF r u] r u show ?thesis by (intro conjI)
qed

text \<open>
  C5.  A call of \<open>update\<close>, on a table a program can hold or on one inside the loop of
  \<open>__increment_size\<close>, looks the key up without skipping dummies in the table as it is after
  the resize, if one was due.  It adds one to \<open>used\<close> exactly when the slot found is no dummy
  and the call is not made inside the loop of \<open>__increment_size\<close>, and leaves \<open>used\<close> as it
  is otherwise; in particular it adds one when the slot found is filled, that is, holds the key
  already.
\<close>

theorem update_increments_used:
  assumes "reachable secret self \<or> in_replay secret self"
    and "update secret k v self = Some (Inr self')"
  shows "\<exists>self1 index self2 i.
           grow secret self = Some (Inr self1) \<and>
           lookup_key secret k False self1 = Some (Inr (index, self2)) \<and>
           list_index (ht_internal_list self1) index = Inr i \<and>
           (ht_used self' = ht_used self + 1 \<longleftrightarrow>
              \<not> is_dummy (ht_internal_list self1 ! i) \<and> \<not> in_replay secret self) \<and>
           (ht_used self' \<noteq> ht_used self + 1 \<longrightarrow> ht_used self' = ht_used self) \<and>
           (is_filled (ht_internal_list self1 ! i) \<and> \<not> in_replay secret self \<longrightarrow>
              ht_used self' = ht_used self + 1)"
proof -
  have inv: "table_inv secret self \<or> replay_inv secret self"
    using assms(1) reachable_table_inv in_replay_inv by blast
  have flag: "ht_update_used self \<longleftrightarrow> \<not> in_replay secret self"
    using assms(1) reachable_table_inv[of secret self] in_replay_inv[of secret self]
    by (auto simp: table_inv_def replay_inv_def)
  from assms(2) obtain self1 where
    g: "grow secret self = Some (Inr self1)" and ins: "insert_at secret k v self1 = Some (Inr self')"
    unfolding update_def by (rule run_Update_InrE)
  from ins obtain index self2 i kk hv where
    l: "lookup_key secret k False self1 = Some (Inr (index, self2))" and
    i: "list_index (ht_internal_list self1) index = Inr i" and
    s: "self' = place self2 i \<lparr>entry_key = k, entry_value = v, entry_hash_value = Some hv,
                             entry_dummy = False\<rparr>"
    by (rule insert_at_cases)
  note f = lookup_key_fields[OF l]
  note gf = grow_fields[OF inv g]
  have used: "ht_used self' = ht_used self +
      (if \<not> is_dummy (ht_internal_list self1 ! i) \<and> \<not> in_replay secret self then 1 else 0)"
    using flag by (simp add: s place_def f gf)
  have nd: "\<not> is_dummy e" if "is_filled e" for e
    using that by (simp add: is_filled_def is_dummy_def)
  show ?thesis
    using g l i used nd[of "ht_internal_list self1 ! i"]
    by (intro exI[of _ self1] exI[of _ index] exI[of _ self2] exI[of _ i]) auto
qed

lemma reachable_perform:
  assumes "reachable secret self" "perform secret c self = Some (Inr self')"
  shows "reachable secret self'"
proof (cases c)
  case (CallUpdate k v)
  then show ?thesis using assms by (auto intro: reachable.after_update)
next
  case (CallRemove k)
  then show ?thesis using assms by (auto intro: reachable.after_remove)
next
  case (CallGet k)
  show ?thesis
  proof (cases "get secret k self")
    case None
    then show ?thesis using assms(2) CallGet by simp
  next
    case (Some y)
    show ?thesis
    proof (cases y)
      case (Inl e)
      then show ?thesis using assms(2) CallGet Some by simp
    next
      case (Inr p)
      obtain r t where p: "p = (r, t)" by (cases p)
      have "get secret k self = Some (Inr (r, self'))" using assms(2) CallGet Some Inr p by simp
      with assms(1) show ?thesis by (rule reachable.after_get)
    qed
  qed
qed

lemma reachable_perform_all:
  "reachable secret self \<Longrightarrow> perform_all secret cs self = Some (Inr self') \<Longrightarrow> reachable secret self'"
proof (induction cs arbitrary: self)
  case Nil
  then show ?case by simp
next
  case (Cons c cs)
  show ?case
  proof (cases "perform secret c self")
    case None
    then show ?thesis using Cons.prems(2) by simp
  next
    case (Some y)
    show ?thesis
    proof (cases y)
      case (Inl e)
      then show ?thesis using Cons.prems(2) Some by simp
    next
      case (Inr t)
      have "reachable secret t" using Cons.prems(1) Some Inr by (simp add: reachable_perform)
      moreover have "perform_all secret cs t = Some (Inr self')" using Cons.prems(2) Some Inr by simp
      ultimately show ?thesis by (rule Cons.IH)
    qed
  qed
qed

theorem update_increments_used_witness:
  "reachable 0 (result (update 0 (Some (PyInt 1)) (Some (PyInt 1)) (projr (HashTable None ''simple'')))) \<and>
   update 0 (Some (PyInt 1)) (Some (PyInt 2))
     (result (update 0 (Some (PyInt 1)) (Some (PyInt 1)) (projr (HashTable None ''simple'')))) =
     Some (Inr (result (update 0 (Some (PyInt 1)) (Some (PyInt 2))
       (result (update 0 (Some (PyInt 1)) (Some (PyInt 1)) (projr (HashTable None ''simple''))))))) \<and>
   ht_used (result (update 0 (Some (PyInt 1)) (Some (PyInt 2))
       (result (update 0 (Some (PyInt 1)) (Some (PyInt 1)) (projr (HashTable None ''simple'')))))) =
     ht_used (result (update 0 (Some (PyInt 1)) (Some (PyInt 1)) (projr (HashTable None ''simple'')))) + 1 \<and>
   \<not> in_replay 0 (result (update 0 (Some (PyInt 1)) (Some (PyInt 1)) (projr (HashTable None ''simple'')))) \<and>
   in_replay 0 (prepare_resize (result (perform_all 0
       (replicate 8 (CallUpdate (Some (PyInt 1)) (Some (PyInt 1)))) (projr (HashTable None ''simple''))))) \<and>
   update 0 (Some (PyInt 1)) (Some (PyInt 1)) (prepare_resize (result (perform_all 0
       (replicate 8 (CallUpdate (Some (PyInt 1)) (Some (PyInt 1)))) (projr (HashTable None ''simple''))))) =
     Some (Inr (result (update 0 (Some (PyInt 1)) (Some (PyInt 1)) (prepare_resize (result (perform_all 0
       (replicate 8 (CallUpdate (Some (PyInt 1)) (Some (PyInt 1)))) (projr (HashTable None ''simple''))))))))  \<and>
   ht_used (result (update 0 (Some (PyInt 1)) (Some (PyInt 1)) (prepare_resize (result (perform_all 0
       (replicate 8 (CallUpdate (Some (PyInt 1)) (Some (PyInt 1)))) (projr (HashTable None ''simple''))))))) =
     ht_used (prepare_resize (result (perform_all 0
       (replicate 8 (CallUpdate (Some (PyInt 1)) (Some (PyInt 1)))) (projr (HashTable None ''simple'')))))"
proof -
  let ?t0 = "projr (HashTable None ''simple'')"
  let ?t1 = "result (update 0 (Some (PyInt 1)) (Some (PyInt 1)) ?t0)"
  let ?t2 = "result (update 0 (Some (PyInt 1)) (Some (PyInt 2)) ?t1)"
  let ?t8 = "result (perform_all 0 (replicate 8 (CallUpdate (Some (PyInt 1)) (Some (PyInt 1)))) ?t0)"
  let ?t9 = "result (update 0 (Some (PyInt 1)) (Some (PyInt 1)) (prepare_resize ?t8))"
  have "HashTable None ''simple'' = Inr ?t0" by (simp add: HashTable_def)
  then have r0: "reachable 0 ?t0" by (rule reachable.fresh)
  have "returned (update 0 (Some (PyInt 1)) (Some (PyInt 1)) ?t0)" by code_simp
  then have u1: "update 0 (Some (PyInt 1)) (Some (PyInt 1)) ?t0 = Some (Inr ?t1)"
    by (rule returned_result)
  have r1: "reachable 0 ?t1" using r0 u1 by (rule reachable.after_update)
  have "returned (update 0 (Some (PyInt 1)) (Some (PyInt 2)) ?t1)" by code_simp
  then have u2: "update 0 (Some (PyInt 1)) (Some (PyInt 2)) ?t1 = Some (Inr ?t2)"
    by (rule returned_result)
  have aux1: "\<not> R" if "a = b + 1 \<longleftrightarrow> P \<and> \<not> R" "a = b + 1"
    for a b :: int and P R
    using that by simp
  have aux2: "a = b" if "a = b + 1 \<longleftrightarrow> P \<and> \<not> R" "a \<noteq> b + 1 \<longrightarrow> a = b" "R"
    for a b :: int and P R
    using that by auto
  have e: "ht_used ?t2 = ht_used ?t1 + 1" by code_simp
  from update_increments_used[OF disjI1[OF r1] u2] have first: "\<not> in_replay 0 ?t1"
    by (elim exE conjE) (rule aux1, assumption, rule e)
  have "returned (perform_all 0 (replicate 8 (CallUpdate (Some (PyInt 1)) (Some (PyInt 1)))) ?t0)
        \<and> needs_resize ?t8"
    by code_simp
  then have p8: "perform_all 0 (replicate 8 (CallUpdate (Some (PyInt 1)) (Some (PyInt 1)))) ?t0 = Some (Inr ?t8)"
    and n8: "needs_resize ?t8"
    by (simp_all add: returned_result)
  have r8: "reachable 0 ?t8" using r0 p8 by (rule reachable_perform_all)
  have ir: "in_replay 0 (prepare_resize ?t8)" using r8 n8 by (rule in_replay.replay_start)
  have "returned (update 0 (Some (PyInt 1)) (Some (PyInt 1)) (prepare_resize ?t8))" by code_simp
  then have u9: "update 0 (Some (PyInt 1)) (Some (PyInt 1)) (prepare_resize ?t8) = Some (Inr ?t9)"
    by (rule returned_result)
  from update_increments_used[OF disjI2[OF ir] u9] have second: "ht_used ?t9 = ht_used (prepare_resize ?t8)"
    by (elim exE conjE) (rule aux2, assumption, assumption, rule ir)
  from r1 u2 e first ir u9 second show ?thesis by (intro conjI)
qed

subsection \<open>A key stored twice\<close>

text \<open>
  With the interpreter's secret 0 the keys 1 and 3 both start probing at slot 0.  After
  \<open>update(1, 10)\<close>, \<open>update(3, 20)\<close> and \<open>remove(1)\<close>, slot 0 is a dummy and key 3 sits in slot
  1.  The lookup of \<open>update(3, 30)\<close> does not skip dummies: it stops at slot 0 before it
  reaches the key in slot 1, and \<open>update\<close> stores the key a second time.
\<close>

text \<open>
  C2 at this input: key 3 is in the table, and after \<open>remove(3)\<close> the call \<open>get(3)\<close> returns
  20, the value of the older of the two entries, rather than \<open>None\<close>.
\<close>

theorem get_after_remove_finds_older_entry:
  "get_value 0 (Some (PyInt 3))
     (result (perform_all 0
        [CallUpdate (Some (PyInt 1)) (Some (PyInt 10)),
         CallUpdate (Some (PyInt 3)) (Some (PyInt 20)),
         CallRemove (Some (PyInt 1)),
         CallUpdate (Some (PyInt 3)) (Some (PyInt 30))]
        (projr (HashTable None ''simple'')))) = Some (Inr (Some (PyInt 30))) \<and>
   get_value 0 (Some (PyInt 3))
     (result (perform_all 0
        [CallUpdate (Some (PyInt 1)) (Some (PyInt 10)),
         CallUpdate (Some (PyInt 3)) (Some (PyInt 20)),
         CallRemove (Some (PyInt 1)),
         CallUpdate (Some (PyInt 3)) (Some (PyInt 30)),
         CallRemove (Some (PyInt 3))]
        (projr (HashTable None ''simple'')))) = Some (Inr (Some (PyInt 20)))"
  by code_simp

text \<open>
  C1 at this input: after \<open>update(3, 30)\<close> the call \<open>get(3)\<close> returns 30; seven calls
  \<open>update(1, 11)\<close> later, the last of which resizes the table, \<open>get(3)\<close> returns 20, with no
  \<open>remove(3)\<close> and no \<open>update(3, _)\<close> in between.
\<close>

theorem get_after_resize_finds_older_entry:
  "get_value 0 (Some (PyInt 3))
     (result (perform_all 0
        ([CallUpdate (Some (PyInt 1)) (Some (PyInt 10)),
          CallUpdate (Some (PyInt 3)) (Some (PyInt 20)),
          CallRemove (Some (PyInt 1)),
          CallUpdate (Some (PyInt 3)) (Some (PyInt 30))])
        (projr (HashTable None ''simple'')))) = Some (Inr (Some (PyInt 30))) \<and>
   get_value 0 (Some (PyInt 3))
     (result (perform_all 0
        ([CallUpdate (Some (PyInt 1)) (Some (PyInt 10)),
          CallUpdate (Some (PyInt 3)) (Some (PyInt 20)),
          CallRemove (Some (PyInt 1)),
          CallUpdate (Some (PyInt 3)) (Some (PyInt 30))] @
         replicate 7 (CallUpdate (Some (PyInt 1)) (Some (PyInt 11))))
        (projr (HashTable None ''simple'')))) = Some (Inr (Some (PyInt 20)))"
  by code_simp

text \<open>
  C4 at this input: six calls \<open>update(1, 11)\<close> bring \<open>used\<close> to 8, so the next \<open>update\<close>
  resizes.  \<open>items()\<close> holds three pairs before \<open>__increment_size\<close> and two after it: the
  pair \<open>(3, 30)\<close> is gone.
\<close>

theorem increment_size_drops_newer_entry:
  "needs_resize
     (result (perform_all 0
        ([CallUpdate (Some (PyInt 1)) (Some (PyInt 10)),
          CallUpdate (Some (PyInt 3)) (Some (PyInt 20)),
          CallRemove (Some (PyInt 1)),
          CallUpdate (Some (PyInt 3)) (Some (PyInt 30))] @
         replicate 6 (CallUpdate (Some (PyInt 1)) (Some (PyInt 11))))
        (projr (HashTable None ''simple'')))) \<and>
   items
     (result (perform_all 0
        ([CallUpdate (Some (PyInt 1)) (Some (PyInt 10)),
          CallUpdate (Some (PyInt 3)) (Some (PyInt 20)),
          CallRemove (Some (PyInt 1)),
          CallUpdate (Some (PyInt 3)) (Some (PyInt 30))] @
         replicate 6 (CallUpdate (Some (PyInt 1)) (Some (PyInt 11))))
        (projr (HashTable None ''simple'')))) =
     [(Some (PyInt 3), Some (PyInt 30)), (Some (PyInt 3), Some (PyInt 20)),
      (Some (PyInt 1), Some (PyInt 11))] \<and>
   map_option (map_sum id items)
     (increment_size 0
        (result (perform_all 0
           ([CallUpdate (Some (PyInt 1)) (Some (PyInt 10)),
             CallUpdate (Some (PyInt 3)) (Some (PyInt 20)),
             CallRemove (Some (PyInt 1)),
             CallUpdate (Some (PyInt 3)) (Some (PyInt 30))] @
            replicate 6 (CallUpdate (Some (PyInt 1)) (Some (PyInt 11))))
           (projr (HashTable None ''simple''))))) =
     Some (Inr [(Some (PyInt 3), Some (PyInt 20)), (Some (PyInt 1), Some (PyInt 11))])"
  by code_simp

subsection \<open>The lookup loop and the probe chain\<close>

lemma lookup_loop_unfold:
  assumes "0 \<le> index" "index < int (length (ht_internal_list self))"
  shows "lookup_loop entry skip_dummy index hv self =
           (if stops entry skip_dummy (ht_internal_list self ! nat index) then Some (Inr (index, self))
            else lookup_loop entry skip_dummy (fst (get_new_index self index hv))
                   (snd (get_new_index self index hv)) (print_collision self))"
proof -
  have i: "list_index (ht_internal_list self) index = Inr (nat index)"
    using assms by (simp add: list_index_def)
  show ?thesis
    by (subst lookup_loop.simps) (simp add: i stops_def split: prod.splits)
qed

lemma get_new_index_print_collision [simp]:
  "get_new_index (print_collision self) = get_new_index self"
  by (simp add: get_new_index_def print_collision_def fun_eq_iff split: probing.splits)

lemma probe_chain_print_collision [simp]:
  "probe_chain (print_collision self) = probe_chain self"
  by (simp add: probe_chain_def fun_eq_iff)

lemma internal_list_print_collision [simp]:
  "ht_internal_list (print_collision self) = ht_internal_list self"
  by (simp add: print_collision_def)

lemma size_print_collision [simp]: "ht_size (print_collision self) = ht_size self"
  by (simp add: print_collision_def)

lemma counter_print_collision [simp]:
  "collision_counter (print_collision self) = collision_counter self + 1"
  "(print_collision self)\<lparr>collision_counter := c\<rparr> = self\<lparr>collision_counter := c\<rparr>"
  by (simp_all add: print_collision_def)

lemma probe_chain_0 [simp]: "probe_chain self 0 p = p"
  by (simp add: probe_chain_def)

lemma probe_chain_Suc:
  "probe_chain self (Suc n) (index, hv) = probe_chain self n (get_new_index self index hv)"
  by (simp add: probe_chain_def funpow_swap1)

lemma and_mask_range:
  fixes x :: int
  shows "0 \<le> x AND (2 ^ m - 1)" "x AND (2 ^ m - 1) < 2 ^ m"
proof -
  have "x AND (2 ^ m - 1) = take_bit m x" by (simp add: take_bit_eq_mask mask_eq_exp_minus_1)
  then show "0 \<le> x AND (2 ^ m - 1)" "x AND (2 ^ m - 1) < 2 ^ m" by simp_all
qed

lemma and_mask_mod:
  fixes x :: int
  shows "x AND (2 ^ m - 1) = x mod 2 ^ m"
  by (simp add: take_bit_eq_mod flip: take_bit_eq_mask mask_eq_exp_minus_1)

lemma get_new_index_range:
  assumes "ht_size self = 2 ^ m"
  shows "0 \<le> fst (get_new_index self index hv)" "fst (get_new_index self index hv) < ht_size self"
  using and_mask_range[of _ m] by (auto simp: get_new_index_def assms split: probing.splits)

lemma probe_chain_range:
  assumes "ht_size self = 2 ^ m" "0 \<le> index" "index < ht_size self"
  shows "0 \<le> fst (probe_chain self n (index, hv)) \<and> fst (probe_chain self n (index, hv)) < ht_size self"
  using assms(2,3)
proof (induction n arbitrary: index hv)
  case 0
  then show ?case by simp
next
  case (Suc n)
  obtain i' h' where g: "get_new_index self index hv = (i', h')" by (cases "get_new_index self index hv")
  have "0 \<le> i'" "i' < ht_size self" using get_new_index_range[OF assms(1), of index hv] g by simp_all
  from Suc.IH[OF this] show ?case by (simp add: probe_chain_Suc g)
qed

text \<open>The loop returns at the first slot of the chain where it stops, if there is one.\<close>

lemma lookup_loop_first_stop:
  assumes "ht_size self = 2 ^ m" "int (length (ht_internal_list self)) = ht_size self"
    and "0 \<le> index" "index < ht_size self"
    and "stops entry skip_dummy (ht_internal_list self ! nat (fst (probe_chain self n (index, hv))))"
    and "\<forall>j < n. \<not> stops entry skip_dummy (ht_internal_list self ! nat (fst (probe_chain self j (index, hv))))"
  shows "lookup_loop entry skip_dummy index hv self =
           Some (Inr (fst (probe_chain self n (index, hv)),
                      self\<lparr>collision_counter := collision_counter self + int n\<rparr>))"
  using assms
proof (induction n arbitrary: index hv self)
  case 0
  then show ?case by (simp add: lookup_loop_unfold)
next
  case (Suc n)
  obtain i' h' where g: "get_new_index self index hv = (i', h')" by (cases "get_new_index self index hv")
  have r: "0 \<le> i'" "i' < ht_size self" using get_new_index_range[OF Suc.prems(1), of index hv] g by simp_all
  have ns: "\<not> stops entry skip_dummy (ht_internal_list self ! nat index)"
    using Suc.prems(6) by (auto dest: spec[of _ 0])
  have later: "\<forall>j < n. \<not> stops entry skip_dummy
      (ht_internal_list (print_collision self) ! nat (fst (probe_chain (print_collision self) j (i', h'))))"
  proof (intro allI impI)
    fix j assume "j < n"
    then have "Suc j < Suc n" by simp
    with Suc.prems(6) have "\<not> stops entry skip_dummy
      (ht_internal_list self ! nat (fst (probe_chain self (Suc j) (index, hv))))" by blast
    then show "\<not> stops entry skip_dummy
      (ht_internal_list (print_collision self) ! nat (fst (probe_chain (print_collision self) j (i', h'))))"
      by (simp add: probe_chain_Suc g)
  qed
  have "lookup_loop entry skip_dummy i' h' (print_collision self) =
          Some (Inr (fst (probe_chain (print_collision self) n (i', h')),
                     (print_collision self)\<lparr>collision_counter := collision_counter (print_collision self) + int n\<rparr>))"
  proof (rule Suc.IH)
    show "ht_size (print_collision self) = 2 ^ m" using Suc.prems(1) by simp
    show "int (length (ht_internal_list (print_collision self))) = ht_size (print_collision self)"
      using Suc.prems(2) by simp
    show "0 \<le> i'" by (rule r)
    show "i' < ht_size (print_collision self)" using r by simp
    show "stops entry skip_dummy
      (ht_internal_list (print_collision self) ! nat (fst (probe_chain (print_collision self) n (i', h'))))"
      using Suc.prems(5) by (simp add: probe_chain_Suc g)
    show "\<forall>j < n. \<not> stops entry skip_dummy
      (ht_internal_list (print_collision self) ! nat (fst (probe_chain (print_collision self) j (i', h'))))"
      by (rule later)
  qed
  then show ?case
    using ns Suc.prems(2,3,4)
    by (simp add: lookup_loop_unfold g probe_chain_Suc add.assoc)
qed

lemma first_stop_exists:
  assumes "P (n::nat)"
  obtains k where "P k" "\<forall>j < k. \<not> P j"
  using assms by (metis ex_least_nat_le not_less_zero le_eq_less_or_eq)

lemma lookup_loop_terminates:
  assumes "ht_size self = 2 ^ m" "int (length (ht_internal_list self)) = ht_size self"
    and "0 \<le> index" "index < ht_size self"
    and "stops entry skip_dummy (ht_internal_list self ! nat (fst (probe_chain self n (index, hv))))"
  obtains k where
    "lookup_loop entry skip_dummy index hv self =
       Some (Inr (fst (probe_chain self k (index, hv)),
                  self\<lparr>collision_counter := collision_counter self + int k\<rparr>))"
    "stops entry skip_dummy (ht_internal_list self ! nat (fst (probe_chain self k (index, hv))))"
    "\<forall>j < k. \<not> stops entry skip_dummy (ht_internal_list self ! nat (fst (probe_chain self j (index, hv))))"
proof -
  obtain k where k: "stops entry skip_dummy (ht_internal_list self ! nat (fst (probe_chain self k (index, hv))))"
    "\<forall>j < k. \<not> stops entry skip_dummy (ht_internal_list self ! nat (fst (probe_chain self j (index, hv))))"
    using first_stop_exists[of "\<lambda>n. stops entry skip_dummy (ht_internal_list self ! nat (fst (probe_chain self n (index, hv))))", OF assms(5)]
    by blast
  show ?thesis
    using that[of k] lookup_loop_first_stop[OF assms(1-4) k] k by simp
qed

text \<open>When the loop returns, it has returned the first slot of the chain where it stops.\<close>

lemma lookup_loop_returns_first_stop:
  assumes "lookup_loop entry skip_dummy index hv self = Some r"
  shows "(\<exists>m. ht_size self = 2 ^ m) \<longrightarrow> int (length (ht_internal_list self)) = ht_size self \<longrightarrow>
         0 \<le> index \<longrightarrow> index < ht_size self \<longrightarrow>
         (\<exists>k. r = Inr (fst (probe_chain self k (index, hv)),
                        self\<lparr>collision_counter := collision_counter self + int k\<rparr>) \<and>
              stops entry skip_dummy (ht_internal_list self ! nat (fst (probe_chain self k (index, hv)))) \<and>
              (\<forall>j < k. \<not> stops entry skip_dummy
                 (ht_internal_list self ! nat (fst (probe_chain self j (index, hv))))))"
  using assms
proof (rule lookup_loop.raw_induct [rotated 1, where P = "\<lambda>entry skip_dummy index hv self r.
         (\<exists>m. ht_size self = 2 ^ m) \<longrightarrow> int (length (ht_internal_list self)) = ht_size self \<longrightarrow>
         0 \<le> index \<longrightarrow> index < ht_size self \<longrightarrow>
         (\<exists>k. r = Inr (fst (probe_chain self k (index, hv)),
                        self\<lparr>collision_counter := collision_counter self + int k\<rparr>) \<and>
              stops entry skip_dummy (ht_internal_list self ! nat (fst (probe_chain self k (index, hv)))) \<and>
              (\<forall>j < k. \<not> stops entry skip_dummy
                 (ht_internal_list self ! nat (fst (probe_chain self j (index, hv))))))"], goal_cases)
  case (1 f entry skip_dummy index hv self r)
  show ?case
  proof (intro impI)
    assume sz: "\<exists>m. ht_size self = 2 ^ m" and len: "int (length (ht_internal_list self)) = ht_size self"
      and lo: "0 \<le> index" and hi: "index < ht_size self"
    have i: "list_index (ht_internal_list self) index = Inr (nat index)"
      using lo hi len by (simp add: list_index_def)
    obtain i' h' where g: "get_new_index self index hv = (i', h')" by (cases "get_new_index self index hv")
    obtain m where m: "ht_size self = 2 ^ m" using sz by blast
    have body: "(if stops entry skip_dummy (ht_internal_list self ! nat index) then Some (Inr (index, self))
                 else f entry skip_dummy i' h' (print_collision self)) = Some r"
      using 1(2) by (simp add: i g stops_def split: if_splits)
    show "\<exists>k. r = Inr (fst (probe_chain self k (index, hv)),
                        self\<lparr>collision_counter := collision_counter self + int k\<rparr>) \<and>
              stops entry skip_dummy (ht_internal_list self ! nat (fst (probe_chain self k (index, hv)))) \<and>
              (\<forall>j < k. \<not> stops entry skip_dummy
                 (ht_internal_list self ! nat (fst (probe_chain self j (index, hv)))))"
    proof (cases "stops entry skip_dummy (ht_internal_list self ! nat index)")
      case True
      then show ?thesis using body by (intro exI[of _ 0]) simp
    next
      case False
      then have call: "f entry skip_dummy i' h' (print_collision self) = Some r" using body by simp
      have r': "0 \<le> i'" "i' < ht_size self" using get_new_index_range[OF m, of index hv] g by simp_all
      have "\<exists>k. r = Inr (fst (probe_chain (print_collision self) k (i', h')),
                     (print_collision self)\<lparr>collision_counter := collision_counter (print_collision self) + int k\<rparr>) \<and>
        stops entry skip_dummy (ht_internal_list (print_collision self) !
           nat (fst (probe_chain (print_collision self) k (i', h')))) \<and>
        (\<forall>j < k. \<not> stops entry skip_dummy (ht_internal_list (print_collision self) !
           nat (fst (probe_chain (print_collision self) j (i', h')))))"
        using 1(1)[OF call, rule_format] sz len r' by simp
      then obtain k where
        k: "r = Inr (fst (probe_chain self k (i', h')),
                     self\<lparr>collision_counter := collision_counter self + 1 + int k\<rparr>)"
        "stops entry skip_dummy (ht_internal_list self ! nat (fst (probe_chain self k (i', h'))))"
        "\<forall>j < k. \<not> stops entry skip_dummy (ht_internal_list self ! nat (fst (probe_chain self j (i', h'))))"
        by auto
      have "\<forall>j < Suc k. \<not> stops entry skip_dummy
                 (ht_internal_list self ! nat (fst (probe_chain self j (index, hv))))"
      proof (intro allI impI)
        fix j assume "j < Suc k"
        show "\<not> stops entry skip_dummy (ht_internal_list self ! nat (fst (probe_chain self j (index, hv))))"
        proof (cases j)
          case 0
          then show ?thesis using False by simp
        next
          case (Suc j')
          then show ?thesis using k(3) \<open>j < Suc k\<close> by (simp add: probe_chain_Suc g)
        qed
      qed
      then show ?thesis
        using k(1,2) by (intro exI[of _ "Suc k"]) (simp add: probe_chain_Suc g add.assoc)
    qed
  qed
qed

subsection \<open>Every slot is probed\<close>

lemma lcg_closed_form:
  fixes x :: int
  shows "4 * (((\<lambda>y. 5 * y + 1) ^^ n) x) + 1 = 5 ^ n * (4 * x + 1)"
  by (induction n) (simp_all add: algebra_simps)

lemma five_power_two_power:
  "\<exists>c::int. 5 ^ (2 ^ m) = 1 + 2 ^ (m + 2) * (1 + 2 * c)"
proof (induction m)
  case 0
  show ?case by (rule exI[of _ 0]) simp
next
  case (Suc m)
  then obtain c :: int where c: "5 ^ (2 ^ m) = 1 + 2 ^ (m + 2) * (1 + 2 * c)" by blast
  have "(5::int) ^ (2 ^ Suc m) = (5 ^ (2 ^ m)) ^ 2"
    by (simp add: power_mult mult.commute flip: power_mult)
  also have "\<dots> = (1 + 2 ^ (m + 2) * (1 + 2 * c)) ^ 2" by (simp add: c)
  also have "\<dots> = 1 + 2 ^ (Suc m + 2) * (1 + 2 * (c + 2 ^ m * (1 + 2 * c) ^ 2))"
    by (simp add: power2_eq_square algebra_simps flip: power_add) 
  finally show ?case by blast
qed

lemma lcg_full_step:
  fixes x :: int
  shows "\<exists>d. ((\<lambda>y. 5 * y + 1) ^^ (2 ^ m)) x = x + 2 ^ m + 2 ^ (m + 1) * d"
proof -
  obtain c :: int where c: "5 ^ (2 ^ m) = 1 + 2 ^ (m + 2) * (1 + 2 * c)"
    using five_power_two_power by blast
  let ?y = "((\<lambda>y. 5 * y + 1) ^^ (2 ^ m)) x"
  have "4 * ?y + 1 = (1 + 2 ^ (m + 2) * (1 + 2 * c)) * (4 * x + 1)"
    using lcg_closed_form[of "2 ^ m" x] by (simp add: c)
  also have "\<dots> = 4 * (x + 2 ^ m + 2 ^ (m + 1) * (c + 2 * x + 4 * c * x)) + 1"
    by (simp add: algebra_simps)
  finally have "?y = x + 2 ^ m + 2 ^ (m + 1) * (c + 2 * x + 4 * c * x)" by simp
  then show ?thesis by blast
qed

lemma lcg_coverage:
  fixes i e :: int
  shows "\<exists>n. (((\<lambda>y. 5 * y + 1) ^^ n) i) mod 2 ^ m = e mod 2 ^ m"
proof (induction m)
  case 0
  show ?case by simp
next
  case (Suc m)
  let ?F = "\<lambda>y::int. 5 * y + 1"
  from Suc obtain n where n: "((?F ^^ n) i) mod 2 ^ m = e mod 2 ^ m" by blast
  then have "2 ^ m dvd (?F ^^ n) i - e" by (simp add: mod_eq_dvd_iff)
  then obtain q where q: "(?F ^^ n) i - e = 2 ^ m * q" by (auto simp: dvd_def)
  show ?case
  proof (cases "even q")
    case True
    then obtain q' where "q = 2 * q'" by (auto elim: evenE)
    then have "(?F ^^ n) i - e = 2 ^ Suc m * q'" using q by simp
    then have "2 ^ Suc m dvd (?F ^^ n) i - e" by (metis dvd_triv_left)
    then have "((?F ^^ n) i) mod 2 ^ Suc m = e mod 2 ^ Suc m" by (simp add: mod_eq_dvd_iff)
    then show ?thesis by blast
  next
    case False
    then obtain q' where q': "q = 2 * q' + 1" by (auto elim: oddE)
    obtain d where d: "(?F ^^ (2 ^ m)) ((?F ^^ n) i) = (?F ^^ n) i + 2 ^ m + 2 ^ (m + 1) * d"
      using lcg_full_step[of m "(?F ^^ n) i"] by blast
    have "(?F ^^ (2 ^ m + n)) i = (?F ^^ n) i + 2 ^ m + 2 ^ (m + 1) * d"
      using d by (simp add: funpow_add)
    then have "(?F ^^ (2 ^ m + n)) i - e = 2 ^ Suc m * (q' + 1 + d)"
      using q q' by (simp add: algebra_simps)
    then have "2 ^ Suc m dvd (?F ^^ (2 ^ m + n)) i - e" by (metis dvd_triv_left)
    then have "((?F ^^ (2 ^ m + n)) i) mod 2 ^ Suc m = e mod 2 ^ Suc m" by (simp add: mod_eq_dvd_iff)
    then show ?thesis by blast
  qed
qed

lemma probe_chain_Suc_right:
  "probe_chain self (Suc n) p = (case probe_chain self n p of (index, hv) \<Rightarrow> get_new_index self index hv)"
  by (simp add: probe_chain_def)

lemma lcg_step_mod: "(5 * (a mod n) + 1) mod n = (5 * a + 1) mod (n::int)"
  by (metis mod_add_left_eq mod_mult_right_eq)

lemma probe_chain_simple:
  assumes "ht_size self = 2 ^ m" "ht_probe self = simple_linear_probing" "0 \<le> index" "index < 2 ^ m"
  shows "probe_chain self n (index, hv) = ((index + int n) mod 2 ^ m, hv)"
proof (induction n)
  case 0
  show ?case using assms(3,4) by simp
next
  case (Suc n)
  show ?case
    by (simp add: probe_chain_Suc_right Suc get_new_index_def assms(1,2) and_mask_mod mod_simps ac_simps)
qed

lemma probe_chain_modified:
  assumes "ht_size self = 2 ^ m" "ht_probe self = modified_linear_probing" "0 \<le> index" "index < 2 ^ m"
  shows "probe_chain self n (index, hv) = (((\<lambda>y. 5 * y + 1) ^^ n) index mod 2 ^ m, hv)"
proof (induction n)
  case 0
  show ?case using assms(3,4) by simp
next
  case (Suc n)
  show ?case
    by (simp add: probe_chain_Suc_right Suc get_new_index_def assms(1,2) and_mask_mod lcg_step_mod)
qed

lemma probe_chain_pythonic_0:
  assumes "ht_size self = 2 ^ m" "ht_probe self = pythonic_linear_probing" "0 \<le> index" "index < 2 ^ m"
  shows "probe_chain self n (index, 0) = (((\<lambda>y. 5 * y + 1) ^^ n) index mod 2 ^ m, 0)"
proof (induction n)
  case 0
  show ?case using assms(3,4) by simp
next
  case (Suc n)
  show ?case
    by (simp add: probe_chain_Suc_right Suc get_new_index_def assms(1,2) and_mask_mod lcg_step_mod)
qed

lemma probe_chain_pythonic_covers:
  assumes "ht_size self = 2 ^ m" "ht_probe self = pythonic_linear_probing"
    and "0 \<le> e" "e < 2 ^ m"
  shows "0 \<le> hv \<Longrightarrow> 0 \<le> index \<Longrightarrow> index < 2 ^ m \<Longrightarrow> \<exists>n. fst (probe_chain self n (index, hv)) = e"
proof (induction "nat hv" arbitrary: hv index rule: less_induct)
  case less
  show ?case
  proof (cases "hv = 0")
    case True
    obtain n where "(((\<lambda>y. 5 * y + 1) ^^ n) index) mod 2 ^ m = e mod 2 ^ m"
      using lcg_coverage[of index m e] by blast
    then have "fst (probe_chain self n (index, hv)) = e"
      using assms(3,4) by (simp add: True probe_chain_pythonic_0[OF assms(1,2) less.prems(2,3)])
    then show ?thesis by blast
  next
    case False
    then have pos: "0 < hv" using less.prems(1) by simp
    let ?i' = "(5 * index + 1 + hv) AND (2 ^ m - 1)"
    let ?h' = "drop_bit 5 hv"
    have g: "get_new_index self index hv = (?i', ?h')" by (simp add: get_new_index_def assms(1,2))
    have "?h' < hv" "0 \<le> ?h'" using pos by (simp_all add: drop_bit_eq_div)
    moreover have "0 \<le> ?i'" "?i' < 2 ^ m" by (rule and_mask_range)+
    ultimately obtain n where "fst (probe_chain self n (?i', ?h')) = e"
      using less.hyps[of ?h' ?i'] by auto
    then have "fst (probe_chain self (Suc n) (index, hv)) = e" by (simp add: probe_chain_Suc g)
    then show ?thesis by blast
  qed
qed

text \<open>
  Every slot is on the probe chain of every start, for each of the three probing methods; the
  pythonic one needs a hash that is not negative.
\<close>

lemma probe_chain_covers:
  assumes "ht_size self = 2 ^ m" "0 \<le> index" "index < ht_size self" "0 \<le> e" "e < ht_size self"
    and "0 \<le> hv"
  shows "\<exists>n. fst (probe_chain self n (index, hv)) = e"
proof (cases "ht_probe self")
  case simple_linear_probing
  have "fst (probe_chain self (nat ((e - index) mod 2 ^ m)) (index, hv)) = e"
    using assms by (simp add: probe_chain_simple[OF assms(1) simple_linear_probing] mod_simps)
  then show ?thesis by blast
next
  case modified_linear_probing
  obtain n where "(((\<lambda>y. 5 * y + 1) ^^ n) index) mod 2 ^ m = e mod 2 ^ m"
    using lcg_coverage[of index m e] by blast
  then have "fst (probe_chain self n (index, hv)) = e"
    using assms by (simp add: probe_chain_modified[OF assms(1) modified_linear_probing])
  then show ?thesis by blast
next
  case pythonic_linear_probing
  show ?thesis
    using probe_chain_pythonic_covers[OF assms(1) pythonic_linear_probing, of e hv index] assms by simp
qed

subsection \<open>Hash values are not negative\<close>

lemma fst_split_nonneg: "0 \<le> fst (split_lower_upper_words x)"
  by (simp add: split_lower_upper_words_def Let_def)

lemma circular_shift_nonneg: "0 \<le> v \<Longrightarrow> 0 \<le> circular_shift v s"
  by (simp add: circular_shift_def split_lower_upper_words_def Let_def)

lemma half_sipround_nonneg:
  assumes "nonneg_state self"
  shows "nonneg_state (half_sipround s t self)"
proof -
  from assms obtain a b c d where
    v: "state_variables self = [a, b, c, d]" and n: "0 \<le> a" "0 \<le> b" "0 \<le> c" "0 \<le> d"
    by (auto simp: nonneg_state_def)
  let ?a = "fst (split_lower_upper_words (a + b))"
  let ?c = "fst (split_lower_upper_words (c + d))"
  have "state_variables (half_sipround s t self) =
          [?c, circular_shift b s XOR ?a, circular_shift ?a 32, circular_shift d t XOR ?c]"
    by (simp add: half_sipround_def v Let_def eval_nat_numeral)
  then show ?thesis
    using n fst_split_nonneg circular_shift_nonneg by (simp add: nonneg_state_def)
qed

lemma double_sipround_nonneg: "nonneg_state self \<Longrightarrow> nonneg_state (double_sipround self)"
  by (simp add: double_sipround_def half_sipround_nonneg)

lemma nonneg_state_update:
  assumes "nonneg_state self" "0 \<le> w" "i < 4"
  shows "nonneg_state (self\<lparr>state_variables := (state_variables self)[i := state_variables self ! i XOR w]\<rparr>)"
proof -
  from assms(1) obtain a b c d where
    v: "state_variables self = [a, b, c, d]" and n: "0 \<le> a" "0 \<le> b" "0 \<le> c" "0 \<le> d"
    by (auto simp: nonneg_state_def)
  have "i = 0 \<or> i = 1 \<or> i = 2 \<or> i = 3" using assms(3) by auto
  then show ?thesis
    using n assms(2) by (auto simp: nonneg_state_def v eval_nat_numeral)
qed

lemma compress_word_nonneg:
  assumes "nonneg_state self" "0 \<le> w"
  shows "nonneg_state (compress_word w self)"
  unfolding compress_word_def Let_def
  by (intro nonneg_state_update double_sipround_nonneg assms) simp_all

lemma compression_loop_nonneg:
  assumes "compression_loop upper self = Some y"
  shows "nonneg_state self \<longrightarrow> nonneg_state y"
  using assms
proof (rule compression_loop.raw_induct [rotated 1, where P = "\<lambda>upper self y. nonneg_state self \<longrightarrow> nonneg_state y"], goal_cases)
  case (1 f upper self y)
  show ?case
  proof (cases "upper = 0")
    case True
    then show ?thesis using 1(2) by simp
  next
    case False
    then have "f (drop_bit 64 upper) (compress_word (upper AND (push_bit 64 1 - 1)) self) = Some y"
      using 1(2) by (simp add: split_lower_upper_words_def Let_def)
    from 1(1)[OF this] show ?thesis
      using compress_word_nonneg[of self "upper AND (push_bit 64 1 - 1)"] by simp
  qed
qed

lemma reset_nonneg:
  assumes "0 \<le> secret_key self"
  shows "nonneg_state (reset self)"
  using assms
  by (simp add: reset_def initialization_def split_lower_upper_words_def Let_def nonneg_state_def
      eval_nat_numeral)

lemma half_sipround_fields [simp]:
  "hash_value (half_sipround s t self) = hash_value self"
  "allow_negative (half_sipround s t self) = allow_negative self"
  by (simp_all add: half_sipround_def Let_def)

lemma double_sipround_fields [simp]:
  "hash_value (double_sipround self) = hash_value self"
  "allow_negative (double_sipround self) = allow_negative self"
  by (simp_all add: double_sipround_def)

lemma compress_word_fields [simp]:
  "hash_value (compress_word w self) = hash_value self"
  "allow_negative (compress_word w self) = allow_negative self"
  by (simp_all add: compress_word_def Let_def)

lemma compression_loop_fields:
  assumes "compression_loop upper self = Some y"
  shows "hash_value y = hash_value self \<and> allow_negative y = allow_negative self"
  using assms
proof (rule compression_loop.raw_induct [rotated 1, where P = "\<lambda>upper self y.
     hash_value y = hash_value self \<and> allow_negative y = allow_negative self"], goal_cases)
  case (1 f upper self y)
  show ?case
  proof (cases "upper = 0")
    case True
    then show ?thesis using 1(2) by simp
  next
    case False
    then have "f (drop_bit 64 upper) (compress_word (upper AND (push_bit 64 1 - 1)) self) = Some y"
      using 1(2) by (simp add: split_lower_upper_words_def Let_def)
    from 1(1)[OF this] show ?thesis by simp
  qed
qed

lemma foldl_xor_nonneg:
  fixes h :: int
  shows "0 \<le> h \<Longrightarrow> \<forall>v \<in> set vs. 0 \<le> v \<Longrightarrow> 0 \<le> foldl (XOR) h vs"
  by (induction vs arbitrary: h) simp_all

lemma siphash_main_nonneg:
  assumes "siphash_main msg self = Some y" "nonneg_state self" "allow_negative self"
    "0 \<le> hash_value self"
  shows "0 \<le> hash_value y"
proof -
  from assms(1) obtain s1 where c: "compression msg self = Some s1"
    by (auto simp: siphash_main_def split: option.splits)
  let ?w = "fst (split_lower_upper_words (add_size_byte msg))"
  have l: "compression_loop (snd (split_lower_upper_words (add_size_byte msg))) (compress_word ?w self) = Some s1"
    using c by (simp add: compression_def Let_def split: prod.splits)
  have n1: "nonneg_state s1"
    using compression_loop_nonneg[OF l] compress_word_nonneg[OF assms(2) fst_split_nonneg] by simp
  have f1: "hash_value s1 = hash_value self" "allow_negative s1"
    using compression_loop_fields[OF l] assms(3) by simp_all
  let ?s2 = "finalization s1"
  have n2: "nonneg_state ?s2"
    unfolding finalization_def
    by (intro double_sipround_nonneg nonneg_state_update n1) simp_all
  have f2: "hash_value ?s2 = hash_value self" "allow_negative ?s2"
    using f1 by (simp_all add: finalization_def)
  have "hash_value y = foldl (XOR) (hash_value ?s2) (state_variables ?s2)"
    using assms(1) c f2 by (auto simp: siphash_main_def Let_def)
  moreover have "\<forall>v \<in> set (state_variables ?s2). 0 \<le> v"
    using n2 by (auto simp: nonneg_state_def)
  ultimately show ?thesis using foldl_xor_nonneg[of "hash_value ?s2" "state_variables ?s2"] f2 assms(4) by simp
qed

lemma get_hash_nonneg:
  assumes "get_hash k self = Some (hv, y)" "0 \<le> secret_key self" "allow_negative self"
  shows "0 \<le> hv"
proof -
  have r: "nonneg_state (reset self)" using assms(2) by (rule reset_nonneg)
  have a: "allow_negative (reset self)" "hash_value (reset self) = 0"
    using assms(3) by (simp_all add: reset_def initialization_def split: prod.splits)
  obtain msg where "siphash_main msg (reset self) = Some y" "hv = hash_value y"
    using assms(1) by (auto simp: get_hash_def split: pyobj.splits)
  then show ?thesis using siphash_main_nonneg[OF _ r a(1)] a(2) by simp
qed

lemma entry_get_hash_nonneg:
  assumes "entry_get_hash secret k = Some hv" "0 \<le> secret"
  shows "0 \<le> hv"
proof -
  obtain y where "get_hash k (SipHash secret True) = Some (hv, y)"
    using assms(1) by (auto simp: entry_get_hash_def hash_compress_bits_def split: option.splits)
  then show ?thesis using get_hash_nonneg[of k "SipHash secret True" hv y] assms(2)
    by (simp add: SipHash_def)
qed

lemma entry_get_hash_terminates:
  "\<exists>hv. entry_get_hash secret (PyStr s) = Some hv"
  "\<exists>hv. entry_get_hash secret (PyObj ident) = Some hv"
  "0 \<le> n \<Longrightarrow> \<exists>hv. entry_get_hash secret (PyInt n) = Some hv"
proof -
  have t: "\<exists>hv. entry_get_hash secret k = Some hv"
    if "\<exists>y. siphash_main msg (reset (SipHash secret True)) = Some y"
      and "get_hash k (SipHash secret True) =
             map_option (\<lambda>self. (hash_value self, self)) (siphash_main msg (reset (SipHash secret True)))"
    for k msg
    using that by (auto simp: entry_get_hash_def hash_compress_bits_def)
  show "\<exists>hv. entry_get_hash secret (PyStr s) = Some hv"
    by (rule t[of "str2int s"]) (simp_all add: siphash_main_terminates str2int_nonnegative get_hash_def)
  show "\<exists>hv. entry_get_hash secret (PyObj ident) = Some hv"
    by (rule t[of "int ident"]) (simp_all add: siphash_main_terminates get_hash_def)
  show "\<exists>hv. entry_get_hash secret (PyInt n) = Some hv" if "0 \<le> n"
    by (rule t[of n]) (simp_all add: siphash_main_terminates that get_hash_def)
qed

lemma get_default_secret_key_nonneg: "0 \<le> get_default_secret_key k0 k1"
  by (simp add: get_default_secret_key_def)

subsection \<open>Lookups on a well-formed table\<close>

lemma lookup_key_Some:
  assumes "entry_get_hash secret kk = Some hv"
  shows "lookup_key secret (Some kk) skip_dummy self =
           lookup_loop \<lparr>entry_key = Some kk, entry_value = None, entry_hash_value = Some hv,
                        entry_dummy = False\<rparr>
             skip_dummy (hv AND (ht_size self - 1)) hv self"
  by (simp add: lookup_key_def HashTableEntry_def assms)

lemma lookup_key_terminates:
  assumes ok: "table_ok secret self" and hv: "entry_get_hash secret kk = Some hv" "0 \<le> hv"
    and stop: "p < length (ht_internal_list self)"
      "stops \<lparr>entry_key = Some kk, entry_value = None, entry_hash_value = Some hv,
              entry_dummy = False\<rparr> skip_dummy (ht_internal_list self ! p)"
  obtains j c where
    "lookup_key secret (Some kk) skip_dummy self = Some (Inr (int j, self\<lparr>collision_counter := c\<rparr>))"
    "j < length (ht_internal_list self)"
    "stops \<lparr>entry_key = Some kk, entry_value = None, entry_hash_value = Some hv,
            entry_dummy = False\<rparr> skip_dummy (ht_internal_list self ! j)"
proof -
  let ?E = "\<lparr>entry_key = Some kk, entry_value = None, entry_hash_value = Some hv, entry_dummy = False\<rparr>"
  obtain m where m: "ht_size self = 2 ^ m" using ok by (auto simp: table_ok_def)
  have len: "int (length (ht_internal_list self)) = ht_size self" using ok by (simp add: table_ok_def)
  let ?i = "hv AND (ht_size self - 1)"
  have r: "0 \<le> ?i" "?i < ht_size self" unfolding m by (rule and_mask_range)+
  have pr: "0 \<le> int p" "int p < ht_size self" using stop(1) len by simp_all
  obtain n where n: "fst (probe_chain self n (?i, hv)) = int p"
    using probe_chain_covers[OF m r pr hv(2)] by blast
  have "stops ?E skip_dummy (ht_internal_list self ! nat (fst (probe_chain self n (?i, hv))))"
    using stop(2) by (simp add: n)
  from lookup_loop_terminates[OF m len r this] obtain k where
    k: "lookup_loop ?E skip_dummy ?i hv self =
          Some (Inr (fst (probe_chain self k (?i, hv)),
                     self\<lparr>collision_counter := collision_counter self + int k\<rparr>))"
      "stops ?E skip_dummy (ht_internal_list self ! nat (fst (probe_chain self k (?i, hv))))"
    by blast
  let ?j = "nat (fst (probe_chain self k (?i, hv)))"
  have jr: "0 \<le> fst (probe_chain self k (?i, hv))" "fst (probe_chain self k (?i, hv)) < ht_size self"
    using probe_chain_range[OF m r, of k hv] by simp_all
  show ?thesis
  proof (rule that[of ?j "collision_counter self + int k"])
    show "lookup_key secret (Some kk) skip_dummy self =
            Some (Inr (int ?j, self\<lparr>collision_counter := collision_counter self + int k\<rparr>))"
      using k(1) jr by (simp add: lookup_key_Some[OF hv(1)])
    show "?j < length (ht_internal_list self)" using jr len by simp
    show "stops ?E skip_dummy (ht_internal_list self ! ?j)" by (rule k(2))
  qed
qed

lemma lookup_key_returns:
  assumes ok: "table_ok secret self"
    and l: "lookup_key secret k skip_dummy self = Some (Inr (index, self'))"
  obtains kk hv j where "k = Some kk" "entry_get_hash secret kk = Some hv"
    "index = int j" "j < length (ht_internal_list self)"
    "stops \<lparr>entry_key = Some kk, entry_value = None, entry_hash_value = Some hv,
            entry_dummy = False\<rparr> skip_dummy (ht_internal_list self ! j)"
proof -
  from l obtain kk hv where k: "k = Some kk" "entry_get_hash secret kk = Some hv"
    by (rule lookup_key_Inr_key)
  let ?E = "\<lparr>entry_key = Some kk, entry_value = None, entry_hash_value = Some hv, entry_dummy = False\<rparr>"
  obtain m where m: "ht_size self = 2 ^ m" using ok by (auto simp: table_ok_def)
  have len: "int (length (ht_internal_list self)) = ht_size self" using ok by (simp add: table_ok_def)
  let ?i = "hv AND (ht_size self - 1)"
  have r: "0 \<le> ?i" "?i < ht_size self" unfolding m by (rule and_mask_range)+
  have ll: "lookup_loop ?E skip_dummy ?i hv self = Some (Inr (index, self'))"
    using l by (simp add: k(1) lookup_key_Some[OF k(2)])
  have ex: "\<exists>m. ht_size self = 2 ^ m" using m by blast
  from lookup_loop_returns_first_stop[OF ll, rule_format, OF ex len r] obtain n where
    n: "index = fst (probe_chain self n (?i, hv))"
      "stops ?E skip_dummy (ht_internal_list self ! nat (fst (probe_chain self n (?i, hv))))"
    by auto
  have jr: "0 \<le> index" "index < ht_size self"
    using probe_chain_range[OF m r, of n hv] n(1) by simp_all
  show ?thesis
    using that[of kk hv "nat index"] k n jr len by simp
qed

lemma stops_filled_key:
  assumes "stops \<lparr>entry_key = Some kk, entry_value = v0, entry_hash_value = Some hv,
                   entry_dummy = False\<rparr> skip_dummy slot" "is_filled slot"
  shows "entry_key slot = Some kk"
  using assms by (auto simp: stops_def entry_eq_def is_filled_def is_dummy_def split: if_splits)

lemma not_filled_stops:
  "\<not> is_filled slot \<Longrightarrow> stops entry False slot"
  by (simp add: stops_def)

lemma empty_stops: "is_empty slot \<Longrightarrow> stops entry skip_dummy slot"
  by (simp add: stops_def is_empty_def is_dummy_def is_filled_def)

subsection \<open>Storing a key that is not in the table\<close>

lemma items_eq: "items self = map (\<lambda>e. (entry_key e, entry_value e)) (filter is_filled (ht_internal_list self))"
  by (simp add: items_def get_items_def Let_def zip_map_map zip_same_conv_map)

lemma keys_eq: "keys self = map entry_key (filter is_filled (ht_internal_list self))"
  by (simp add: keys_def get_items_def Let_def)

lemma keys_items: "keys self = map fst (items self)"
  by (simp add: keys_eq items_eq)

lemma filter_update_new:
  assumes "i < length xs" "\<not> P (xs ! i)" "P y"
  shows "set (map f (filter P (xs[i := y]))) = insert (f y) (set (map f (filter P xs)))"
    and "length (filter P (xs[i := y])) = Suc (length (filter P xs))"
    and "distinct (map f (filter P xs)) \<Longrightarrow> f y \<notin> set (map f (filter P xs)) \<Longrightarrow>
         distinct (map f (filter P (xs[i := y])))"
  using assms
proof (induction xs arbitrary: i)
  case Nil
  {
    case 1 then show ?case by simp
  next
    case 2 then show ?case by simp
  next
    case 3 then show ?case by simp
  }
next
  case (Cons x xs)
  {
    case 1
    show ?case
    proof (cases i)
      case 0
      then show ?thesis using 1 by simp
    next
      case (Suc j)
      then show ?thesis using 1 Cons.IH(1)[of j] by auto
    qed
  next
    case 2
    show ?case
    proof (cases i)
      case 0
      then show ?thesis using 2 by simp
    next
      case (Suc j)
      then show ?thesis using 2 Cons.IH(2)[of j] by auto
    qed
  next
    case 3
    show ?case
    proof (cases i)
      case 0
      then show ?thesis using 3 by simp
    next
      case (Suc j)
      then show ?thesis using 3 Cons.IH(1)[of j] Cons.IH(3)[of j] by auto
    qed
  }
qed

lemma exists_not_filled:
  assumes "length (filter is_filled xs) < length xs"
  obtains p where "p < length xs" "\<not> is_filled (xs ! p)"
proof -
  have "\<exists>x \<in> set xs. \<not> is_filled x"
    using assms by (metis filter_True nat_neq_iff)
  then show ?thesis using that by (auto simp: in_set_conv_nth)
qed

lemma insert_at_absent:
  assumes ok: "table_ok secret self" and nn: "0 \<le> secret"
    and hv: "entry_get_hash secret kk = Some hv"
    and absent: "Some kk \<notin> set (keys self)"
    and room: "length (items self) < length (ht_internal_list self)"
  obtains self' i where
    "insert_at secret (Some kk) v self = Some (Inr self')"
    "i < length (ht_internal_list self)" "\<not> is_filled (ht_internal_list self ! i)"
    "ht_internal_list self' =
       (ht_internal_list self)[i := \<lparr>entry_key = Some kk, entry_value = v,
                                      entry_hash_value = Some hv, entry_dummy = False\<rparr>]"
    "ht_size self' = ht_size self" "ht_update_used self' = ht_update_used self"
    "ht_probe self' = ht_probe self"
    "ht_used self' = ht_used self +
       (if \<not> is_dummy (ht_internal_list self ! i) \<and> ht_update_used self then 1 else 0)"
proof -
  let ?E = "\<lparr>entry_key = Some kk, entry_value = None, entry_hash_value = Some hv, entry_dummy = False\<rparr>"
  let ?new = "\<lparr>entry_key = Some kk, entry_value = v, entry_hash_value = Some hv, entry_dummy = False\<rparr>"
  have h0: "0 \<le> hv" using hv nn by (rule entry_get_hash_nonneg)
  obtain p where p: "p < length (ht_internal_list self)" "\<not> is_filled (ht_internal_list self ! p)"
    using room by (auto simp: length_items elim: exists_not_filled)
  have "stops ?E False (ht_internal_list self ! p)" using p(2) by (rule not_filled_stops)
  from lookup_key_terminates[OF ok hv h0 p(1) this] obtain j c where
    l: "lookup_key secret (Some kk) False self = Some (Inr (int j, self\<lparr>collision_counter := c\<rparr>))"
    and j: "j < length (ht_internal_list self)"
    and st: "stops ?E False (ht_internal_list self ! j)"
    by blast
  have nf: "\<not> is_filled (ht_internal_list self ! j)"
  proof
    assume f: "is_filled (ht_internal_list self ! j)"
    then have "entry_key (ht_internal_list self ! j) = Some kk" using st by (rule stops_filled_key[rotated])
    then have "Some kk \<in> set (keys self)"
      using f j by (auto simp: keys_eq intro!: image_eqI[of _ _ "ht_internal_list self ! j"])
    with absent show False by simp
  qed
  have ins: "insert_at secret (Some kk) v self = Some (Inr (place (self\<lparr>collision_counter := c\<rparr>) j ?new))"
    using j by (simp add: insert_at_def l list_index_nat HashTableEntry_def hv)
  show ?thesis
    by (rule that[OF ins j nf]) (simp_all add: place_def)
qed

lemma table_ok_insert:
  assumes "table_ok secret self" "i < length (ht_internal_list self)"
    "entry_get_hash secret kk = Some hv"
    "ht_internal_list self' =
       (ht_internal_list self)[i := \<lparr>entry_key = Some kk, entry_value = v,
                                      entry_hash_value = Some hv, entry_dummy = False\<rparr>]"
    "ht_size self' = ht_size self"
  shows "table_ok secret self'"
  using assms(1,2) _ assms(4,5) by (rule table_ok_update) (simp add: entry_ok_def assms(3))

lemma items_insert:
  assumes "i < length (ht_internal_list self)" "\<not> is_filled (ht_internal_list self ! i)"
    "ht_internal_list self' =
       (ht_internal_list self)[i := \<lparr>entry_key = k, entry_value = v,
                                      entry_hash_value = Some hv, entry_dummy = False\<rparr>]"
  shows "set (items self') = insert (k, v) (set (items self))"
    and "length (items self') = Suc (length (items self))"
    and "set (keys self') = insert k (set (keys self))"
    and "distinct (keys self) \<Longrightarrow> k \<notin> set (keys self) \<Longrightarrow> distinct (keys self')"
proof -
  let ?new = "\<lparr>entry_key = k, entry_value = v, entry_hash_value = Some hv, entry_dummy = False\<rparr>"
  have f: "is_filled ?new" by (simp add: is_filled_def entry_state_def)
  show "set (items self') = insert (k, v) (set (items self))"
    using filter_update_new(1)[OF assms(1,2) f, of "\<lambda>e. (entry_key e, entry_value e)"]
    by (simp add: items_eq assms(3))
  show "length (items self') = Suc (length (items self))"
    using filter_update_new(2)[OF assms(1,2) f] by (simp add: items_eq assms(3))
  show "set (keys self') = insert k (set (keys self))"
    using filter_update_new(1)[OF assms(1,2) f, of entry_key] by (simp add: keys_eq assms(3))
  show "distinct (keys self')" if "distinct (keys self)" "k \<notin> set (keys self)"
    using filter_update_new(3)[OF assms(1,2) f, of entry_key] that by (simp add: keys_eq assms(3))
qed

lemma no_dummies_insert:
  assumes "no_dummies self"
    "ht_internal_list self' =
       (ht_internal_list self)[i := \<lparr>entry_key = k, entry_value = v,
                                      entry_hash_value = Some hv, entry_dummy = False\<rparr>]"
  shows "no_dummies self'"
proof -
  have "\<not> is_dummy e" if "e \<in> set (ht_internal_list self')" for e
  proof -
    have "e \<in> insert \<lparr>entry_key = k, entry_value = v, entry_hash_value = Some hv, entry_dummy = False\<rparr>
              (set (ht_internal_list self))"
      using that set_update_subset_insert[of "ht_internal_list self" i] by (auto simp: assms(2))
    then show ?thesis using assms(1) by (auto simp: no_dummies_def is_dummy_def entry_state_def)
  qed
  then show ?thesis by (simp add: no_dummies_def)
qed

lemma replay_inv_prepare_resize:
  assumes "table_ok secret self" "ht_used self \<le> ht_size self"
  shows "replay_inv secret (prepare_resize self)"
proof -
  have pos: "0 < ht_size self" using assms(1) by (rule table_size_pos)
  show ?thesis
    using assms pos table_ok_prepare_resize[of secret self]
    by (simp add: replay_inv_def) (simp add: prepare_resize_def push_bit_eq_mult)
qed

lemma replay_items:
  assumes nn: "0 \<le> secret"
  shows "replay_inv secret self \<Longrightarrow> no_dummies self \<Longrightarrow> distinct (keys self) \<Longrightarrow>
         distinct (map fst its) \<Longrightarrow> set (map fst its) \<inter> set (keys self) = {} \<Longrightarrow>
         (\<forall>k \<in> set (map fst its). \<exists>kk hv. k = Some kk \<and> entry_get_hash secret kk = Some hv) \<Longrightarrow>
         length (items self) + length its \<le> length (ht_internal_list self) \<Longrightarrow>
         \<exists>self'. run secret (ForItems its) self = Some (Inr self') \<and> replay_inv secret self' \<and>
           no_dummies self' \<and> distinct (keys self') \<and> ht_size self' = ht_size self \<and>
           ht_used self' = ht_used self \<and> ht_probe self' = ht_probe self \<and>
           set (items self') = set (items self) \<union> set its \<and>
           length (items self') = length (items self) + length its"
proof (induction its arbitrary: self)
  case Nil
  then show ?case by (simp add: run_ForItems_Nil)
next
  case (Cons kv rest)
  obtain k v where kv: "kv = (k, v)" by (cases kv)
  obtain kk hv where k: "k = Some kk" and hv: "entry_get_hash secret kk = Some hv"
    using Cons.prems(6) by (auto simp: kv)
  have ok: "table_ok secret self" and fl: "\<not> ht_update_used self"
    and us: "ht_used self + 1 \<le> ht_size self"
    using Cons.prems(1) by (simp_all add: replay_inv_def)
  have pos: "0 < ht_size self" using ok by (rule table_size_pos)
  have nr: "\<not> needs_resize self" using us pos by (simp add: needs_resize_iff)
  have absent: "Some kk \<notin> set (keys self)" using Cons.prems(5) by (auto simp: kv k)
  have room: "length (items self) < length (ht_internal_list self)" using Cons.prems(7) by simp
  from insert_at_absent[OF ok nn hv absent room, of v] obtain self1 i where
    ins: "insert_at secret (Some kk) v self = Some (Inr self1)" and
    i: "i < length (ht_internal_list self)" "\<not> is_filled (ht_internal_list self ! i)" and
    il: "ht_internal_list self1 =
       (ht_internal_list self)[i := \<lparr>entry_key = Some kk, entry_value = v,
                                      entry_hash_value = Some hv, entry_dummy = False\<rparr>]" and
    f: "ht_size self1 = ht_size self" "ht_update_used self1 = ht_update_used self"
      "ht_probe self1 = ht_probe self"
      "ht_used self1 = ht_used self +
         (if \<not> is_dummy (ht_internal_list self ! i) \<and> ht_update_used self then 1 else 0)"
    by blast
  have u: "run secret (Update k v) self = Some (Inr self1)"
    using ins nr pos by (simp add: run_Update k)
  have ok1: "table_ok secret self1" using ok i(1) hv il f(1) by (rule table_ok_insert)
  have inv1: "replay_inv secret self1" using ok1 fl us f by (simp add: replay_inv_def)
  note it = items_insert[OF i il]
  have nd1: "no_dummies self1" using Cons.prems(2) il by (rule no_dummies_insert)
  have d1: "distinct (keys self1)" using it(4) Cons.prems(3) absent by simp
  have dr: "distinct (map fst rest)" and kn: "k \<notin> set (map fst rest)"
    using Cons.prems(4) by (simp_all add: kv)
  have dj: "set (map fst rest) \<inter> set (keys self1) = {}"
    using Cons.prems(5) kn by (auto simp: it(3) kv k)
  have hs: "\<forall>k \<in> set (map fst rest). \<exists>kk hv. k = Some kk \<and> entry_get_hash secret kk = Some hv"
    using Cons.prems(6) by simp
  have rm: "length (items self1) + length rest \<le> length (ht_internal_list self1)"
    using Cons.prems(7) by (simp add: it(2) il)
  from Cons.IH[OF inv1 nd1 d1 dr dj hs rm] obtain self' where
    r: "run secret (ForItems rest) self1 = Some (Inr self')" "replay_inv secret self'"
      "no_dummies self'" "distinct (keys self')" "ht_size self' = ht_size self1"
      "ht_used self' = ht_used self1" "ht_probe self' = ht_probe self1"
      "set (items self') = set (items self1) \<union> set rest"
      "length (items self') = length (items self1) + length rest"
    by blast
  have "run secret (ForItems (kv # rest)) self = Some (Inr self')"
    using u r(1) by (simp add: kv run_ForItems_Cons)
  moreover have "set (items self') = set (items self) \<union> set (kv # rest)"
    using r(8) it(1) by (auto simp: kv k)
  moreover have "length (items self') = length (items self) + length (kv # rest)"
    using r(9) it(2) by simp
  ultimately show ?case using r(2,3,4,5,6,7) f fl by auto
qed

lemma filled_entry_key:
  assumes "entry_ok secret e" "is_filled e"
  obtains kk hv where "entry_key e = Some kk" "entry_get_hash secret kk = Some hv"
  using assms
  by (cases "entry_key e") (auto simp: entry_ok_def is_filled_def entry_state_def split: if_splits)

lemma keys_hashable:
  assumes "table_ok secret self" "k \<in> set (keys self)"
  shows "\<exists>kk hv. k = Some kk \<and> entry_get_hash secret kk = Some hv"
proof -
  from assms(2) obtain e where e: "e \<in> set (ht_internal_list self)" "is_filled e" "k = entry_key e"
    by (auto simp: keys_eq)
  have "entry_ok secret e" using assms(1) e(1) by (simp add: table_ok_def)
  from filled_entry_key[OF this e(2)] show ?thesis using e(3) by metis
qed

lemma items_init [simp]:
  "ht_internal_list self = init_internal_list sz \<Longrightarrow> items self = []"
  by (simp add: items_eq init_internal_list_def is_filled_def entry_state_def)

lemma increment_size_distinct:
  assumes nn: "0 \<le> secret" and inv: "table_inv secret self" and d: "distinct (keys self)"
  shows "\<exists>self'. increment_size secret self = Some (Inr self') \<and> table_inv secret self' \<and>
           no_dummies self' \<and> distinct (keys self') \<and> ht_size self' = 2 * ht_size self \<and>
           ht_used self' = ht_used self \<and> ht_probe self' = ht_probe self \<and>
           set (items self') = set (items self) \<and> length (items self') = length (items self)"
proof -
  let ?p = "prepare_resize self"
  have ok: "table_ok secret self" and us: "ht_used self \<le> ht_size self"
    using inv by (simp_all add: table_inv_def)
  have pos: "0 < ht_size self" using ok by (rule table_size_pos)
  have len: "int (length (ht_internal_list self)) = ht_size self" using ok by (simp add: table_ok_def)
  have il: "ht_internal_list ?p = init_internal_list (push_bit 1 (ht_size self))"
    by (simp add: prepare_resize_def)
  have i0: "items ?p = []" using il by (rule items_init)
  have k0: "keys ?p = []" by (simp add: keys_items i0)
  have r1: "replay_inv secret ?p" using ok us by (rule replay_inv_prepare_resize)
  have r2: "no_dummies ?p"
    by (simp add: no_dummies_def il init_internal_list_def is_dummy_def entry_state_def)
  have r3: "distinct (keys ?p)" by (simp add: k0)
  have r4: "distinct (map fst (items self))" using d by (simp add: keys_items)
  have r5: "set (map fst (items self)) \<inter> set (keys ?p) = {}" by (simp add: k0)
  have r6: "\<forall>k \<in> set (map fst (items self)). \<exists>kk hv. k = Some kk \<and> entry_get_hash secret kk = Some hv"
    using keys_hashable[OF ok] by (simp add: keys_items)
  have "length (items self) \<le> length (ht_internal_list self)" by (simp add: length_items)
  also have "\<dots> \<le> length (ht_internal_list ?p)"
    using len pos by (simp add: il init_internal_list_def push_bit_eq_mult)
  finally have r7: "length (items ?p) + length (items self) \<le> length (ht_internal_list ?p)"
    by (simp add: i0)
  from replay_items[OF nn r1 r2 r3 r4 r5 r6 r7] obtain s where
    s: "run secret (ForItems (items self)) ?p = Some (Inr s)" "replay_inv secret s"
      "no_dummies s" "distinct (keys s)" "ht_size s = ht_size ?p" "ht_used s = ht_used ?p"
      "ht_probe s = ht_probe ?p" "set (items s) = set (items ?p) \<union> set (items self)"
      "length (items s) = length (items ?p) + length (items self)"
    by blast
  let ?s' = "s\<lparr>ht_update_used := True\<rparr>"
  have e: "increment_size secret self = Some (Inr ?s')"
    using s(1) by (simp add: increment_size_def run_IncrementSize)
  have t: "table_inv secret ?s'" using inv e by (rule increment_size_table_inv)
  have same: "items ?s' = items s" "keys ?s' = keys s" "no_dummies ?s' = no_dummies s"
    by (simp_all add: items_eq keys_eq no_dummies_def)
  show ?thesis
    using e t s(3-9) i0 same
    by (intro exI[of _ ?s']) (simp add: prepare_resize_def push_bit_eq_mult)
qed

lemma update_absent:
  assumes nn: "0 \<le> secret" and inv: "table_inv secret self" and nd: "no_dummies self"
    and d: "distinct (keys self)" and hv: "entry_get_hash secret kk = Some hv"
    and absent: "Some kk \<notin> set (keys self)"
  shows "\<exists>self1 self'. grow secret self = Some (Inr self1) \<and>
           ht_size self1 = (if needs_resize self then 2 * ht_size self else ht_size self) \<and>
           insert_at secret (Some kk) v self1 = Some (Inr self') \<and>
           update secret (Some kk) v self = Some (Inr self') \<and>
           table_inv secret self' \<and> no_dummies self' \<and> distinct (keys self') \<and>
           ht_size self' = ht_size self1 \<and> ht_used self' = ht_used self + 1 \<and>
           ht_probe self' = ht_probe self \<and>
           set (items self') = insert (Some kk, v) (set (items self)) \<and>
           length (items self') = Suc (length (items self))"
proof -
  have pos: "0 < ht_size self" using inv by (auto simp: table_inv_def table_size_pos)
  have "\<exists>self1. grow secret self = Some (Inr self1) \<and>
          ht_size self1 = (if needs_resize self then 2 * ht_size self else ht_size self) \<and>
          table_inv secret self1 \<and> no_dummies self1 \<and> distinct (keys self1) \<and>
          ht_used self1 = ht_used self \<and> ht_used self1 + 1 \<le> ht_size self1 \<and>
          ht_probe self1 = ht_probe self \<and>
          set (items self1) = set (items self) \<and> length (items self1) = length (items self)"
  proof (cases "needs_resize self")
    case True
    from increment_size_distinct[OF nn inv d] obtain self1 where
      "increment_size secret self = Some (Inr self1)" "table_inv secret self1"
      "no_dummies self1" "distinct (keys self1)" "ht_size self1 = 2 * ht_size self"
      "ht_used self1 = ht_used self" "ht_probe self1 = ht_probe self"
      "set (items self1) = set (items self)" "length (items self1) = length (items self)"
      by blast
    then show ?thesis using True inv pos
      by (intro exI[of _ self1]) (auto simp: grow_def table_inv_def)
  next
    case False
    then show ?thesis using inv nd d pos
      by (intro exI[of _ self]) (simp add: grow_def needs_resize_iff)
  qed
  then obtain self1 where
    g: "grow secret self = Some (Inr self1)"
      "ht_size self1 = (if needs_resize self then 2 * ht_size self else ht_size self)" and
    inv1: "table_inv secret self1" and nd1: "no_dummies self1" and d1: "distinct (keys self1)" and
    u1: "ht_used self1 = ht_used self" "ht_used self1 + 1 \<le> ht_size self1" and
    p1: "ht_probe self1 = ht_probe self" and
    it1: "set (items self1) = set (items self)" "length (items self1) = length (items self)"
    by blast
  have ok1: "table_ok secret self1" and fl1: "ht_update_used self1"
    and cn: "int (count_nonempty (ht_internal_list self1)) \<le> ht_used self1"
    and len1: "int (length (ht_internal_list self1)) = ht_size self1"
    using inv1 by (simp_all add: table_inv_def table_ok_def)
  have absent1: "Some kk \<notin> set (keys self1)"
    using absent it1(1) by (metis keys_items set_map)
  have room: "length (items self1) < length (ht_internal_list self1)"
    using length_items_le[of self1] cn u1(2) len1 by linarith
  from insert_at_absent[OF ok1 nn hv absent1 room, of v] obtain self' i where
    ins: "insert_at secret (Some kk) v self1 = Some (Inr self')" and
    i: "i < length (ht_internal_list self1)" "\<not> is_filled (ht_internal_list self1 ! i)" and
    il: "ht_internal_list self' =
       (ht_internal_list self1)[i := \<lparr>entry_key = Some kk, entry_value = v,
                                      entry_hash_value = Some hv, entry_dummy = False\<rparr>]" and
    f: "ht_size self' = ht_size self1" "ht_update_used self' = ht_update_used self1"
      "ht_probe self' = ht_probe self1"
      "ht_used self' = ht_used self1 +
         (if \<not> is_dummy (ht_internal_list self1 ! i) \<and> ht_update_used self1 then 1 else 0)"
    by blast
  have upd: "update secret (Some kk) v self = Some (Inr self')"
    using g(1) ins pos by (simp add: update_def run_Update grow_def increment_size_def split: if_splits)
  have inv': "table_inv secret self'" using inv upd by (rule update_table_inv)
  have "\<not> is_dummy (ht_internal_list self1 ! i)" using nd1 i(1) by (simp add: no_dummies_def)
  then have used: "ht_used self' = ht_used self + 1" using f(4) fl1 u1(1) by simp
  note it = items_insert[OF i il]
  have nd': "no_dummies self'" using nd1 il by (rule no_dummies_insert)
  have d': "distinct (keys self')" using it(4) d1 absent1 by simp
  show ?thesis
    using g ins upd inv' nd' d' f(1,3) p1 used it(1,2) it1
    by (intro exI[of _ self1] exI[of _ self']) simp
qed

subsection \<open>Nine squares\<close>

lemma perform_all_append:
  "perform_all secret (xs @ ys) self = and_then (perform_all secret xs self) (perform_all secret ys)"
proof (induction xs arbitrary: self)
  case Nil
  show ?case by simp
next
  case (Cons c xs)
  show ?case
  proof (cases "perform secret c self")
    case None
    then show ?thesis by simp
  next
    case (Some r)
    then show ?thesis by (cases r) (simp_all add: Cons)
  qed
qed

lemma squares_Suc: "squares (int (Suc n)) = squares (int n) @ [CallUpdate (Some (PyInt (int n))) (Some (PyInt (int n * int n)))]"
proof -
  have "[0..int n] = [0..int n - 1] @ [int n]" by (rule upto_rec2) simp
  then show ?thesis by (simp add: squares_def)
qed

lemma HashTable_fields:
  assumes "HashTable hash_key cr = Inr self"
  shows "ht_size self = 8" "ht_used self = 0" "ht_internal_list self = init_internal_list 8"
  using assms by (auto simp: HashTable_def Let_def split: if_splits)

lemma squares_prefix:
  assumes new: "HashTable hash_key cr = Inr self" and nn: "0 \<le> secret"
  shows "n \<le> 8 \<Longrightarrow>
    \<exists>t. perform_all secret (squares (int n)) self = Some (Inr t) \<and> table_inv secret t \<and>
        no_dummies t \<and> distinct (keys t) \<and> ht_size t = 8 \<and> ht_used t = int n \<and>
        set (items t) = (\<lambda>i. (Some (PyInt i), Some (PyInt (i * i)))) ` {0..int n - 1} \<and>
        length (items t) = n"
proof (induction n)
  case 0
  note f = HashTable_fields[OF new]
  have "items self = []" using f(3) by (rule items_init)
  moreover have "no_dummies self"
    by (simp add: no_dummies_def f(3) init_internal_list_def is_dummy_def entry_state_def)
  ultimately show ?case
    using HashTable_table_inv[OF new, of secret] f(1,2)
    by (intro exI[of _ self]) (simp add: squares_def keys_items)
next
  case (Suc n)
  then obtain t where
    t: "perform_all secret (squares (int n)) self = Some (Inr t)" "table_inv secret t"
      "no_dummies t" "distinct (keys t)" "ht_size t = 8" "ht_used t = int n"
      "set (items t) = (\<lambda>i. (Some (PyInt i), Some (PyInt (i * i)))) ` {0..int n - 1}"
      "length (items t) = n"
    by auto
  obtain hv where hv: "entry_get_hash secret (PyInt (int n)) = Some hv"
    using entry_get_hash_terminates(3)[of "int n" secret] by auto
  have absent: "Some (PyInt (int n)) \<notin> set (keys t)"
    by (auto simp: keys_items t(7))
  have nr: "\<not> needs_resize t" using t(5,6) Suc.prems by (simp add: needs_resize_iff)
  from update_absent[OF nn t(2,3,4) hv absent, of "Some (PyInt (int n * int n))"] obtain t' where
    t': "update secret (Some (PyInt (int n))) (Some (PyInt (int n * int n))) t = Some (Inr t')"
      "table_inv secret t'" "no_dummies t'" "distinct (keys t')" "ht_size t' = 8"
      "ht_used t' = int n + 1"
      "set (items t') = insert (Some (PyInt (int n)), Some (PyInt (int n * int n))) (set (items t))"
      "length (items t') = Suc (length (items t))"
    using nr t(5,6) by auto
  have "perform_all secret (squares (int (Suc n))) self = Some (Inr t')"
    unfolding squares_Suc using t(1) t'(1) by (simp add: perform_all_append)
  moreover have "{0..int (Suc n) - 1} = insert (int n) {0..int n - 1}" by auto
  then have "set (items t') = (\<lambda>i. (Some (PyInt i), Some (PyInt (i * i)))) ` {0..int (Suc n) - 1}"
    using t'(7) t(7) by simp
  moreover have "ht_used t' = int (Suc n)" "length (items t') = Suc n" using t'(6,8) t(8) by simp_all
  ultimately show ?case
    using t'(2-5) by (intro exI[of _ t'] conjI)
qed

text \<open>
  C6.  On a new table, whatever the interpreter's secret and the probing method, storing the
  squares of \<open>0 .. n - 1\<close> for \<open>n \<le> 8\<close> leaves the size at 8 with \<open>used = n\<close>.  With eight
  keys stored the table is due for a resize: \<open>update(8, 64)\<close> first doubles the size to 16 and
  then places the entry; afterwards the size is 16 and \<open>items()\<close> holds the nine pairs
  \<open>(i, i * i)\<close> for \<open>i\<close> in \<open>0 .. 8\<close> and nothing else.
\<close>

theorem nine_squares:
  assumes "HashTable hash_key cr = Inr self"
  shows "(\<forall>n \<in> {0..8}. \<exists>t.
            perform_all (get_default_secret_key k0 k1) (squares (int n)) self = Some (Inr t) \<and>
            ht_size t = 8 \<and> ht_used t = int n) \<and>
         (\<exists>t8 t8' t9.
            perform_all (get_default_secret_key k0 k1) (squares 8) self = Some (Inr t8) \<and>
            needs_resize t8 \<and>
            increment_size (get_default_secret_key k0 k1) t8 = Some (Inr t8') \<and> ht_size t8' = 16 \<and>
            insert_at (get_default_secret_key k0 k1) (Some (PyInt 8)) (Some (PyInt 64)) t8' = Some (Inr t9) \<and>
            update (get_default_secret_key k0 k1) (Some (PyInt 8)) (Some (PyInt 64)) t8 = Some (Inr t9) \<and>
            perform_all (get_default_secret_key k0 k1) (squares 9) self = Some (Inr t9) \<and>
            ht_size t9 = 16 \<and>
            set (items t9) = (\<lambda>i. (Some (PyInt i), Some (PyInt (i * i)))) ` {0..8} \<and>
            length (items t9) = 9)"
proof (intro conjI ballI)
  let ?secret = "get_default_secret_key k0 k1"
  have nn: "0 \<le> ?secret" by (rule get_default_secret_key_nonneg)
  show "\<exists>t. perform_all ?secret (squares (int n)) self = Some (Inr t) \<and> ht_size t = 8 \<and> ht_used t = int n"
    if "n \<in> {0..8}" for n
    using squares_prefix[OF assms nn, of n] that by auto
  from squares_prefix[OF assms nn, of 8] obtain t8 where
    t: "perform_all ?secret (squares 8) self = Some (Inr t8)" "table_inv ?secret t8"
      "no_dummies t8" "distinct (keys t8)" "ht_size t8 = 8" "ht_used t8 = 8"
      "set (items t8) = (\<lambda>i. (Some (PyInt i), Some (PyInt (i * i)))) ` {0..7}"
      "length (items t8) = 8"
    by auto
  obtain hv where hv: "entry_get_hash ?secret (PyInt 8) = Some hv"
    using entry_get_hash_terminates(3)[of 8 ?secret] by auto
  have absent: "Some (PyInt 8) \<notin> set (keys t8)" by (auto simp: keys_items t(7))
  have nr: "needs_resize t8" using t(5,6) by (simp add: needs_resize_iff)
  from update_absent[OF nn t(2,3,4) hv absent, of "Some (PyInt 64)"] obtain t8' t9 where
    g: "grow ?secret t8 = Some (Inr t8')" "ht_size t8' = 16" and
    t9: "insert_at ?secret (Some (PyInt 8)) (Some (PyInt 64)) t8' = Some (Inr t9)"
      "update ?secret (Some (PyInt 8)) (Some (PyInt 64)) t8 = Some (Inr t9)"
      "ht_size t9 = ht_size t8'"
      "set (items t9) = insert (Some (PyInt 8), Some (PyInt 64)) (set (items t8))"
      "length (items t9) = Suc (length (items t8))"
    using nr t(5) by auto
  have inc: "increment_size ?secret t8 = Some (Inr t8')" using g(1) nr by (simp add: grow_def)
  have "squares 9 = squares 8 @ [CallUpdate (Some (PyInt 8)) (Some (PyInt 64))]"
    using squares_Suc[of 8] by simp
  then have all: "perform_all ?secret (squares 9) self = Some (Inr t9)"
    using t(1) t9(2) by (simp add: perform_all_append)
  have "{0..8::int} = insert 8 {0..7}" by auto
  then have set9: "set (items t9) = (\<lambda>i. (Some (PyInt i), Some (PyInt (i * i)))) ` {0..8}"
    using t9(4) t(7) by simp
  show "\<exists>t8 t8' t9.
            perform_all ?secret (squares 8) self = Some (Inr t8) \<and>
            needs_resize t8 \<and>
            increment_size ?secret t8 = Some (Inr t8') \<and> ht_size t8' = 16 \<and>
            insert_at ?secret (Some (PyInt 8)) (Some (PyInt 64)) t8' = Some (Inr t9) \<and>
            update ?secret (Some (PyInt 8)) (Some (PyInt 64)) t8 = Some (Inr t9) \<and>
            perform_all ?secret (squares 9) self = Some (Inr t9) \<and>
            ht_size t9 = 16 \<and>
            set (items t9) = (\<lambda>i. (Some (PyInt i), Some (PyInt (i * i)))) ` {0..8} \<and>
            length (items t9) = 9"
    using t(1) nr inc g(2) t9(1,2,3,5) all set9 t(8)
    by (intro exI[of _ t8] exI[of _ t8'] exI[of _ t9]) simp
qed

theorem nine_squares_witness:
  "HashTable None ''simple'' = Inr (projr (HashTable None ''simple'')) \<and>
   (\<exists>t. perform_all (get_default_secret_key 0 0) (squares (int 8)) (projr (HashTable None ''simple'')) =
          Some (Inr t) \<and> ht_size t = 8 \<and> ht_used t = int 8) \<and>
   (\<exists>t9. perform_all (get_default_secret_key 0 0) (squares 9) (projr (HashTable None ''simple'')) =
          Some (Inr t9) \<and> ht_size t9 = 16 \<and> length (items t9) = 9)"
proof -
  have new: "HashTable None ''simple'' = Inr (projr (HashTable None ''simple''))"
    by (simp add: HashTable_def)
  have m: "(8::nat) \<in> {0..8}" by simp
  note T = nine_squares[OF new, of 0 0]
  from T m have "\<exists>t. perform_all (get_default_secret_key 0 0) (squares (int 8)) (projr (HashTable None ''simple'')) =
          Some (Inr t) \<and> ht_size t = 8 \<and> ht_used t = int 8"
    by blast
  moreover from T have "\<exists>t9. perform_all (get_default_secret_key 0 0) (squares 9) (projr (HashTable None ''simple'')) =
          Some (Inr t9) \<and> ht_size t9 = 16 \<and> length (items t9) = 9"
    by blast
  ultimately show ?thesis using new by blast
qed

subsection \<open>A lookup that never returns\<close>

lemma lookup_loop_never_stops:
  assumes "ht_size self = 2 ^ m" "int (length (ht_internal_list self)) = ht_size self"
    and "0 \<le> index" "index < ht_size self"
    and "\<forall>e \<in> set (ht_internal_list self). \<not> stops entry skip_dummy e"
  shows "lookup_loop entry skip_dummy index hv self = None"
proof (rule ccontr)
  assume "lookup_loop entry skip_dummy index hv self \<noteq> None"
  then obtain r where r: "lookup_loop entry skip_dummy index hv self = Some r" by auto
  have ex: "\<exists>m. ht_size self = 2 ^ m" using assms(1) by blast
  from lookup_loop_returns_first_stop[OF r, rule_format, OF ex assms(2,3,4)] obtain k where
    k: "stops entry skip_dummy (ht_internal_list self ! nat (fst (probe_chain self k (index, hv))))"
    by blast
  have "0 \<le> fst (probe_chain self k (index, hv))" "fst (probe_chain self k (index, hv)) < ht_size self"
    using probe_chain_range[OF assms(1,3,4), of k hv] by simp_all
  then have "nat (fst (probe_chain self k (index, hv))) < length (ht_internal_list self)"
    using assms(2) by simp
  then have "ht_internal_list self ! nat (fst (probe_chain self k (index, hv))) \<in> set (ht_internal_list self)"
    by (rule nth_mem)
  with assms(5) k show False by blast
qed

lemma get_on_full_table:
  assumes "full_without kk (2 ^ m) self" "entry_get_hash secret kk = Some hv"
  shows "get secret (Some kk) self = None"
proof -
  let ?E = "\<lparr>entry_key = Some kk, entry_value = None, entry_hash_value = Some hv, entry_dummy = False\<rparr>"
  have sz: "ht_size self = 2 ^ m" and len: "int (length (ht_internal_list self)) = ht_size self"
    and all: "\<forall>e \<in> set (ht_internal_list self). is_filled e \<and> entry_key e \<noteq> Some kk"
    using assms(1) by (simp_all add: full_without_def list_all_iff)
  have ns: "\<forall>e \<in> set (ht_internal_list self). \<not> stops ?E True e"
    using all by (auto simp: stops_def entry_eq_def is_filled_def is_dummy_def)
  have r: "0 \<le> hv AND (ht_size self - 1)" "hv AND (ht_size self - 1) < ht_size self"
    unfolding sz by (rule and_mask_range)+
  have "lookup_key secret (Some kk) True self = None"
    unfolding lookup_key_Some[OF assms(2)] using sz len r ns by (rule lookup_loop_never_stops)
  then show ?thesis by (simp add: get_def)
qed

text \<open>
  C10 at a table without an empty slot.  With the interpreter's secret 0, a new table takes the
  squares of \<open>0 .. 6\<close> and then \<open>update(7, None)\<close> without a resize, and all eight slots are
  filled.  \<open>get(7)\<close> returns \<open>None\<close>, the value stored; \<open>get(8)\<close>, for a key that was never
  stored, probes filled slots for ever and does not return.
\<close>

theorem get_absent_key_on_full_table:
  "get_value 0 (Some (PyInt 7))
     (result (perform_all 0 (squares 7 @ [CallUpdate (Some (PyInt 7)) None])
        (projr (HashTable None ''simple'')))) = Some (Inr None) \<and>
   get 0 (Some (PyInt 8))
     (result (perform_all 0 (squares 7 @ [CallUpdate (Some (PyInt 7)) None])
        (projr (HashTable None ''simple'')))) = None"
proof -
  let ?t = "result (perform_all 0 (squares 7 @ [CallUpdate (Some (PyInt 7)) None])
              (projr (HashTable None ''simple'')))"
  have a: "get_value 0 (Some (PyInt 7)) ?t = Some (Inr None)" by code_simp
  have "full_without (PyInt 8) 8 ?t" by code_simp
  then have f: "full_without (PyInt 8) (2 ^ 3) ?t" by simp
  obtain hv where hv: "entry_get_hash 0 (PyInt 8) = Some hv"
    using entry_get_hash_terminates(3)[of 8 0] by auto
  from get_on_full_table[OF f hv] a show ?thesis by (intro conjI)
qed

subsection \<open>What \<open>get\<close> returns on a well-formed table\<close>

lemma probe_chain_cong:
  assumes "ht_size a = ht_size b" "ht_probe a = ht_probe b"
  shows "probe_chain a = probe_chain b"
proof -
  have "get_new_index a = get_new_index b"
    by (simp add: get_new_index_def fun_eq_iff assms split: probing.splits)
  then show ?thesis by (simp add: probe_chain_def fun_eq_iff)
qed

lemma grow_table_inv:
  assumes "table_inv secret self" "grow secret self = Some (Inr self1)"
  shows "table_inv secret self1"
proof (cases "needs_resize self")
  case True
  then have "increment_size secret self = Some (Inr self1)" using assms(2) by (simp add: grow_def)
  with assms(1) show ?thesis by (rule increment_size_table_inv)
next
  case False
  then show ?thesis using assms by (simp add: grow_def)
qed

text \<open>
  After \<open>update(k, v)\<close> has returned, \<open>get(k)\<close> returns \<open>v\<close>: the lookup of \<open>get\<close> walks the
  slots the lookup of \<open>update\<close> walked, which are filled with other keys, and stops at the
  entry just stored.
\<close>

lemma get_after_update:
  assumes inv: "table_inv secret self" and upd: "update secret k v self = Some (Inr self')"
  shows "\<exists>c. get secret k self' = Some (Inr (v, self'\<lparr>collision_counter := c\<rparr>))"
proof -
  from upd obtain self1 where
    g: "grow secret self = Some (Inr self1)" and ins: "insert_at secret k v self1 = Some (Inr self')"
    unfolding update_def by (rule run_Update_InrE)
  have inv1: "table_inv secret self1" using inv g by (rule grow_table_inv)
  then have ok1: "table_ok secret self1" by (simp add: table_inv_def)
  obtain m where m: "ht_size self1 = 2 ^ m" using ok1 by (auto simp: table_ok_def)
  have len: "int (length (ht_internal_list self1)) = ht_size self1" using ok1 by (simp add: table_ok_def)
  from ins obtain index self2 i kk hv where
    l: "lookup_key secret k False self1 = Some (Inr (index, self2))" and
    li: "list_index (ht_internal_list self1) index = Inr i" and
    k: "k = Some kk" and hv: "entry_get_hash secret kk = Some hv" and
    s: "self' = place self2 i \<lparr>entry_key = k, entry_value = v, entry_hash_value = Some hv,
                             entry_dummy = False\<rparr>"
    by (rule insert_at_cases)
  let ?E = "\<lparr>entry_key = Some kk, entry_value = None, entry_hash_value = Some hv, entry_dummy = False\<rparr>"
  let ?new = "\<lparr>entry_key = k, entry_value = v, entry_hash_value = Some hv, entry_dummy = False\<rparr>"
  let ?i = "hv AND (ht_size self1 - 1)"
  note f = lookup_key_fields[OF l]
  have r: "0 \<le> ?i" "?i < ht_size self1" unfolding m by (rule and_mask_range)+
  have ll: "lookup_loop ?E False ?i hv self1 = Some (Inr (index, self2))"
    using l by (simp add: k lookup_key_Some[OF hv])
  have ex: "\<exists>m. ht_size self1 = 2 ^ m" using m by blast
  from lookup_loop_returns_first_stop[OF ll, rule_format, OF ex len r] obtain n where
    n: "index = fst (probe_chain self1 n (?i, hv))"
      "stops ?E False (ht_internal_list self1 ! nat (fst (probe_chain self1 n (?i, hv))))"
      "\<forall>j < n. \<not> stops ?E False (ht_internal_list self1 ! nat (fst (probe_chain self1 j (?i, hv))))"
    by auto
  have ir: "0 \<le> index" "index < ht_size self1"
    using probe_chain_range[OF m r, of n hv] n(1) by simp_all
  have i: "i = nat index" "i < length (ht_internal_list self1)"
    using li ir list_index_nonneg[OF ir(1) li] list_index_less[OF li] by simp_all
  have il': "ht_internal_list self' = (ht_internal_list self1)[i := ?new]"
    and sz': "ht_size self' = ht_size self1" and pr': "ht_probe self' = ht_probe self1"
    by (simp_all add: s place_def f)
  have pc: "probe_chain self' = probe_chain self1" using sz' pr' by (rule probe_chain_cong)
  have stop': "stops ?E True (ht_internal_list self' ! nat (fst (probe_chain self' n (?i, hv))))"
    using i by (simp add: pc n(1)[symmetric] il' stops_def is_dummy_def is_filled_def entry_state_def
        entry_eq_def k)
  have before: "\<forall>j < n. \<not> stops ?E True (ht_internal_list self' ! nat (fst (probe_chain self' j (?i, hv))))"
  proof (intro allI impI)
    fix j assume j: "j < n"
    let ?p = "nat (fst (probe_chain self1 j (?i, hv)))"
    have ns: "\<not> stops ?E False (ht_internal_list self1 ! ?p)" using n(3) j by blast
    have "?p \<noteq> i" using ns n(2) i(1) n(1) by auto
    then have same: "ht_internal_list self' ! ?p = ht_internal_list self1 ! ?p" by (simp add: il')
    have "\<not> stops ?E True (ht_internal_list self1 ! ?p)"
      using ns by (auto simp: stops_def split: if_splits)
    then show "\<not> stops ?E True (ht_internal_list self' ! nat (fst (probe_chain self' j (?i, hv))))"
      by (simp add: pc same)
  qed
  have len': "int (length (ht_internal_list self')) = ht_size self'" using len by (simp add: il' sz')
  have "lookup_loop ?E True ?i hv self' =
          Some (Inr (fst (probe_chain self' n (?i, hv)),
                     self'\<lparr>collision_counter := collision_counter self' + int n\<rparr>))"
    using lookup_loop_first_stop[of self' m ?i ?E True n hv] m r stop' before len'
    by (simp add: sz')
  then have "lookup_key secret k True self' =
          Some (Inr (index, self'\<lparr>collision_counter := collision_counter self' + int n\<rparr>))"
    by (simp add: k lookup_key_Some[OF hv] sz' pc n(1))
  moreover have "list_index (ht_internal_list self') index = Inr i"
    using li by (simp add: il' list_index_def)
  moreover have "is_filled (ht_internal_list self' ! i)" "entry_value (ht_internal_list self' ! i) = v"
    using i(2) by (simp_all add: il' is_filled_def entry_state_def)
  ultimately have "get secret k self' =
      Some (Inr (v, self'\<lparr>collision_counter := collision_counter self' + int n\<rparr>))"
    by (simp add: get_def)
  then show ?thesis by blast
qed

text \<open>
  On a table with an empty slot, \<open>get\<close> returns \<open>None\<close> for a key that no filled slot holds.
\<close>

lemma get_absent:
  assumes ok: "table_ok secret self" and nn: "0 \<le> secret"
    and hv: "entry_get_hash secret kk = Some hv"
    and absent: "Some kk \<notin> set (keys self)"
    and empty: "\<exists>e \<in> set (ht_internal_list self). is_empty e"
  shows "\<exists>c. get secret (Some kk) self = Some (Inr (None, self\<lparr>collision_counter := c\<rparr>))"
proof -
  let ?E = "\<lparr>entry_key = Some kk, entry_value = None, entry_hash_value = Some hv, entry_dummy = False\<rparr>"
  have h0: "0 \<le> hv" using hv nn by (rule entry_get_hash_nonneg)
  from empty obtain p where p: "p < length (ht_internal_list self)" "is_empty (ht_internal_list self ! p)"
    by (auto simp: in_set_conv_nth)
  have "stops ?E True (ht_internal_list self ! p)" using p(2) by (rule empty_stops)
  from lookup_key_terminates[OF ok hv h0 p(1) this] obtain j c where
    l: "lookup_key secret (Some kk) True self = Some (Inr (int j, self\<lparr>collision_counter := c\<rparr>))"
    and j: "j < length (ht_internal_list self)"
    and st: "stops ?E True (ht_internal_list self ! j)"
    by blast
  have nf: "\<not> is_filled (ht_internal_list self ! j)"
  proof
    assume f: "is_filled (ht_internal_list self ! j)"
    then have "entry_key (ht_internal_list self ! j) = Some kk" using st by (rule stops_filled_key[rotated])
    then have "Some kk \<in> set (keys self)"
      using f j by (auto simp: keys_eq intro!: image_eqI[of _ _ "ht_internal_list self ! j"])
    with absent show False by simp
  qed
  have "get secret (Some kk) self = Some (Inr (None, self\<lparr>collision_counter := c\<rparr>))"
    using j nf by (simp add: get_def l list_index_nat)
  then show ?thesis by blast
qed

end
